theory Spec2Isabelle
  imports Main "HOL-Library.Word" "HOL-Library.Monad_Syntax"
begin

unbundle bit_operations_syntax

section \<open>xorfs: a read-only view of chains of xor-ed backup images\<close>

text \<open>
  The program (\<^verbatim>\<open>xorfs.c\<close>) scans a directory for files named
  \<^verbatim>\<open><name>-<number>.xor\<close> (plain images) and
  \<^verbatim>\<open><name>-<number>x<other>.xor\<close> (images xor-ed against backup
  \<^verbatim>\<open><other>\<close> of the same name), links every xor-ed image to the image it
  is xor-ed against, and serves each of them as \<^verbatim>\<open><name>-<number>.dat\<close>,
  undoing the xor on every read.

  The embedding below follows the C text function by function. Pointers into the global
  array \<^verbatim>\<open>xorfs_source_files.files\<close> are indices into a list, C strings are
  \<^typ>\<open>string\<close> (a \<^verbatim>\<open>NULL\<close> string is the empty one: the only code that
  meets one passes it to \<^verbatim>\<open>free\<close>), \<^verbatim>\<open>unsigned int\<close> is a 32-bit
  word, \<^verbatim>\<open>size_t\<close> is \<^typ>\<open>nat\<close>, \<^verbatim>\<open>int\<close> and
  \<^verbatim>\<open>off_t\<close> are \<^typ>\<open>int\<close> with every narrowing conversion written out.
  A call that does not come back with a value (endless recursion, a wild pointer, a write
  far outside an allocation) has the result \<^term>\<open>None\<close>.
\<close>

subsection \<open>Machine types and constants\<close>

type_synonym byte = "8 word"
type_synonym uintmax_t = "64 word"
type_synonym unsigned_int = "32 word"

definition INT_MAX :: int where
  "INT_MAX = 2147483647"

definition LONG_MAX :: int where
  "LONG_MAX = 9223372036854775807"

definition LONG_MIN :: int where
  "LONG_MIN = - 9223372036854775808"

definition EINVAL :: int where
  "EINVAL = 22"

definition EIO :: int where
  "EIO = 5"

definition ENOMEM :: int where
  "ENOMEM = 12"

text \<open>
  Storing a \<^verbatim>\<open>size_t\<close> in an \<^verbatim>\<open>int\<close> keeps the low 32 bits, read as
  two's complement.
\<close>

definition int_of_size_t :: "nat \<Rightarrow> int" where
  "int_of_size_t n = (let m = int n mod 2 ^ 32 in if m < 2 ^ 31 then m else m - 2 ^ 32)"

subsection \<open>The data model\<close>

record stat =
  st_size :: nat
  st_mtime :: int

text \<open>
  A \<^verbatim>\<open>FILE\<close> stream opened for reading: the bytes of the file behind it and the
  stream's position, which every \<^verbatim>\<open>fseek\<close> and \<^verbatim>\<open>fread\<close> on the stream
  shares. \<open>fileno\<close> tells streams apart.
\<close>

record FILE =
  fileno :: nat
  content :: "byte list"
  pos :: nat

record xorfs_backup =
  name :: string
  number :: unsigned_int
  xor_against_number :: unsigned_int
  xor_against_source_file :: "nat option"
  time :: int
  output_file_name :: string

text \<open>
  \<^verbatim>\<open>struct xorfs_source_file\<close>; its field \<^verbatim>\<open>name\<close> is \<open>file_name\<close>
  here, apart from the \<open>name\<close> of the backup.
\<close>

record xorfs_source_file =
  file_name :: string
  file_descriptor :: "FILE option"
  stat :: stat
  backup :: xorfs_backup

text \<open>
  The global state: the array \<^verbatim>\<open>xorfs_source_files.files\<close> (its \<^verbatim>\<open>count\<close>
  is the length of the list), whether the array has been handed to \<^verbatim>\<open>free\<close>, and the
  streams that are open.
\<close>

record xorfs_globals =
  files :: "xorfs_source_file list"
  files_freed :: bool
  open_streams :: "nat list"

definition initial_globals :: xorfs_globals where
  "initial_globals = \<lparr>files = [], files_freed = False, open_streams = []\<rparr>"

subsection \<open>Lookups\<close>

function source_file_by_file_name_from ::
  "xorfs_source_file list \<Rightarrow> string \<Rightarrow> nat \<Rightarrow> nat option" where
  "source_file_by_file_name_from fs requested_name index =
     (if index < length fs
      then (if output_file_name (backup (fs ! index)) = requested_name then Some index
            else source_file_by_file_name_from fs requested_name (index + 1))
      else None)"
  by pat_completeness auto
termination
  by (relation "measure (\<lambda>(fs, requested_name, index). length fs - index)") auto

definition xorfs_get_source_file_by_file_name ::
  "xorfs_source_file list \<Rightarrow> string \<Rightarrow> nat option" where
  "xorfs_get_source_file_by_file_name fs requested_name =
     source_file_by_file_name_from fs requested_name 0"

function source_file_by_backup_name_and_number_from ::
  "xorfs_source_file list \<Rightarrow> string \<Rightarrow> unsigned_int \<Rightarrow> nat \<Rightarrow> nat option" where
  "source_file_by_backup_name_and_number_from fs requested_name requested_number index =
     (if index < length fs
      then (if number (backup (fs ! index)) = requested_number
               \<and> name (backup (fs ! index)) = requested_name
            then Some index
            else source_file_by_backup_name_and_number_from fs requested_name requested_number
                   (index + 1))
      else None)"
  by pat_completeness auto
termination
  by (relation "measure (\<lambda>(fs, requested_name, requested_number, index). length fs - index)")
    auto

definition get_source_file_by_backup_name_and_number ::
  "xorfs_source_file list \<Rightarrow> string \<Rightarrow> unsigned_int \<Rightarrow> nat option" where
  "get_source_file_by_backup_name_and_number fs requested_name requested_number =
     source_file_by_backup_name_and_number_from fs requested_name requested_number 0"

subsection \<open>Reading\<close>

text \<open>
  The two calls of the C library that \<^verbatim>\<open>xorfs_read_plain\<close> makes, on a regular file
  that is read without device errors: \<^verbatim>\<open>fseek(stream, offset, SEEK_SET)\<close> fails for
  a negative offset and moves the position otherwise; \<^verbatim>\<open>fread(buffer, 1, size, stream)\<close>
  delivers the bytes from the position on, at most \<open>size\<close> of them, and moves the position
  behind them.
\<close>

definition fseek :: "FILE \<Rightarrow> int \<Rightarrow> FILE option" where
  "fseek stream offset = (if offset < 0 then None else Some (stream\<lparr>pos := nat offset\<rparr>))"

definition fread :: "FILE \<Rightarrow> nat \<Rightarrow> byte list \<times> FILE" where
  "fread stream sz =
     (let data = take sz (drop (pos stream) (content stream))
      in (data, stream\<lparr>pos := pos stream + length data\<rparr>))"

text \<open>
  \<^verbatim>\<open>xorfs_read_plain\<close> returns the \<^verbatim>\<open>int\<close>, the buffer with the bytes read at
  its front, and the source file with its stream where the read left it.
\<close>

definition xorfs_read_plain ::
  "xorfs_source_file \<Rightarrow> byte list \<Rightarrow> int \<Rightarrow> nat
     \<Rightarrow> (int \<times> byte list \<times> xorfs_source_file) option" where
  "xorfs_read_plain source_file buffer offset sz =
     (case file_descriptor source_file of
        None \<Rightarrow> None
      | Some stream \<Rightarrow>
          (case fseek stream offset of
             None \<Rightarrow> Some (- EINVAL, buffer, source_file)
           | Some stream1 \<Rightarrow>
               (let (data, stream2) = fread stream1 sz;
                    read_bytes = int_of_size_t (length data)
                in Some (read_bytes, data @ drop (length data) buffer,
                         source_file\<lparr>file_descriptor := Some stream2\<rparr>))))"

text \<open>
  The xor of two buffers. The chunked loop reads and writes the buffers as arrays of
  \<^verbatim>\<open>uintmax_t\<close>, eight bytes each, in the byte order of the machine (little-endian
  here); the other loop goes byte by byte, and its \<^verbatim>\<open>int\<close> counter must not pass
  \<^verbatim>\<open>INT_MAX\<close>.
\<close>

fun uintmax_of_bytes :: "byte list \<Rightarrow> uintmax_t" where
  "uintmax_of_bytes [] = 0"
| "uintmax_of_bytes (b # bs) = ucast b OR push_bit 8 (uintmax_of_bytes bs)"

fun bytes_of_uintmax :: "nat \<Rightarrow> uintmax_t \<Rightarrow> byte list" where
  "bytes_of_uintmax 0 w = []"
| "bytes_of_uintmax (Suc n) w = ucast w # bytes_of_uintmax n (drop_bit 8 w)"

definition load_uintmax :: "byte list \<Rightarrow> nat \<Rightarrow> uintmax_t" where
  "load_uintmax buf i = uintmax_of_bytes (take 8 (drop (8 * i) buf))"

definition store_uintmax :: "byte list \<Rightarrow> nat \<Rightarrow> uintmax_t \<Rightarrow> byte list" where
  "store_uintmax buf i w = take (8 * i) buf @ bytes_of_uintmax 8 w @ drop (8 * i + 8) buf"

function xor_uintmax_chunks :: "int \<Rightarrow> int \<Rightarrow> byte list \<Rightarrow> byte list \<Rightarrow> byte list" where
  "xor_uintmax_chunks i size_in_uintmax_chunks first_buffer second_buffer =
     (if i < size_in_uintmax_chunks
      then xor_uintmax_chunks (i + 1) size_in_uintmax_chunks
             (store_uintmax first_buffer (nat i)
                (load_uintmax first_buffer (nat i) XOR load_uintmax second_buffer (nat i)))
             second_buffer
      else first_buffer)"
  by pat_completeness auto
termination
  by (relation "measure (\<lambda>(i, n, a, b). nat (n - i))") auto

function xor_byte_by_byte :: "int \<Rightarrow> nat \<Rightarrow> byte list \<Rightarrow> byte list \<Rightarrow> byte list option" where
  "xor_byte_by_byte i sz first_buffer second_buffer =
     (if i < int sz
      then (if i = INT_MAX then None
            else xor_byte_by_byte (i + 1) sz
                   (first_buffer[nat i := first_buffer ! nat i XOR second_buffer ! nat i])
                   second_buffer)
      else Some first_buffer)"
  by pat_completeness auto
termination
  by (relation "measure (\<lambda>(i, n, a, b). nat (int n - i))") auto

definition xor_buffers :: "nat \<Rightarrow> byte list \<Rightarrow> byte list \<Rightarrow> byte list option" where
  "xor_buffers sz first_buffer second_buffer =
     (if sz mod 8 = 0
      then Some (xor_uintmax_chunks 0 (int_of_size_t (sz div 8)) first_buffer second_buffer)
      else xor_byte_by_byte 0 sz first_buffer second_buffer)"

text \<open>
  The specification's words for the same step: the first \<open>n\<close> bytes of the first buffer
  are xor-ed position by position with those of the second, in place.
\<close>

definition xor_position_wise :: "nat \<Rightarrow> byte list \<Rightarrow> byte list \<Rightarrow> byte list" where
  "xor_position_wise n first_buffer second_buffer =
     map2 (XOR) (take n first_buffer) (take n second_buffer) @ drop n first_buffer"

text \<open>
  \<^verbatim>\<open>xorfs_read_backup\<close>. \<open>malloc depth\<close> is what the allocation made at nesting
  depth \<open>depth\<close> delivers: nothing, or a block whose bytes are whatever they happen to be.
  The source file and the image it is xor-ed against are pointers into the array, so the
  function takes and returns the array.
\<close>

partial_function (option) xorfs_read_backup ::
  "(nat \<Rightarrow> (nat \<Rightarrow> byte) option) \<Rightarrow> nat \<Rightarrow> xorfs_source_file list \<Rightarrow> nat \<Rightarrow> byte list
     \<Rightarrow> int \<Rightarrow> nat \<Rightarrow> (int \<times> byte list \<times> xorfs_source_file list) option" where
  "xorfs_read_backup malloc depth fs source_file buffer offset sz =
     (if \<not> source_file < length fs then None
      else do {
        (r, buffer1, source_file1) \<leftarrow> xorfs_read_plain (fs ! source_file) buffer offset sz;
        let fs1 = fs[source_file := source_file1];
        if r < 0 then Some (r, buffer1, fs1)
        else
          let read_bytes = r in
          if xor_against_number (backup (fs ! source_file)) = 0
          then Some (read_bytes, buffer1, fs1)
          else
            (case malloc depth of
               None \<Rightarrow> Some (- ENOMEM, buffer1, fs1)
             | Some uninitialised \<Rightarrow>
                 (case xor_against_source_file (backup (fs ! source_file)) of
                    None \<Rightarrow> None
                  | Some xor_against \<Rightarrow> do {
                      (r2, second_buffer, fs2) \<leftarrow>
                        xorfs_read_backup malloc (Suc depth) fs1 xor_against
                          (map uninitialised [0..<sz]) offset (nat read_bytes);
                      if r2 < 0 then Some (r2, buffer1, fs2)
                      else if r2 \<noteq> read_bytes then Some (- EIO, buffer1, fs2)
                      else do {
                        combined \<leftarrow> xor_buffers sz buffer1 second_buffer;
                        Some (read_bytes, combined, fs2)
                      }
                    }))
      })"

declare xorfs_read_backup.simps [code]

subsection \<open>File names\<close>

definition is_digit :: "char \<Rightarrow> bool" where
  "is_digit c = (48 \<le> (of_char c :: nat) \<and> (of_char c :: nat) \<le> 57)"

definition isspace :: "char \<Rightarrow> bool" where
  "isspace c = ((of_char c :: nat) = 32 \<or> (9 \<le> (of_char c :: nat) \<and> (of_char c :: nat) \<le> 13))"

definition digit_value :: "char \<Rightarrow> int" where
  "digit_value c = int (of_char c) - 48"

definition decimal_value :: "string \<Rightarrow> int" where
  "decimal_value ds = foldl (\<lambda>v c. 10 * v + digit_value c) 0 ds"

text \<open>
  \<^verbatim>\<open>strtol(nptr, &endptr, 10)\<close> of the C library (glibc): white space, an optional
  sign, then the longest run of decimal digits. The result is the value (clamped to the
  range of \<^verbatim>\<open>long\<close>), the rest of the string that \<^verbatim>\<open>endptr\<close> points to, and
  whether \<^verbatim>\<open>errno\<close> was set (to \<^verbatim>\<open>ERANGE\<close>, when the value was clamped).
  Without any digit the value is 0, \<^verbatim>\<open>endptr\<close> is \<^verbatim>\<open>nptr\<close> and
  \<^verbatim>\<open>errno\<close> is left alone.
\<close>

definition strtol :: "string \<Rightarrow> int \<times> string \<times> bool" where
  "strtol nptr =
     (let after_space = dropWhile isspace nptr;
          negative = (after_space \<noteq> [] \<and> hd after_space = CHR ''-'');
          after_sign = (if after_space \<noteq> [] \<and> (hd after_space = CHR ''-'' \<or> hd after_space = CHR ''+'')
                        then tl after_space else after_space);
          digits = takeWhile is_digit after_sign;
          endptr = dropWhile is_digit after_sign;
          v = (if negative then - decimal_value digits else decimal_value digits)
      in if digits = [] then (0, nptr, False)
         else if LONG_MAX < v then (LONG_MAX, endptr, True)
         else if v < LONG_MIN then (LONG_MIN, endptr, True)
         else (v, endptr, False))"

text \<open>The character a \<^verbatim>\<open>char *\<close> into a string points to: the terminating 0 at its end.\<close>

definition deref :: "string \<Rightarrow> char" where
  "deref p = (case p of [] \<Rightarrow> CHR 0x00 | c # rest \<Rightarrow> c)"

text \<open>
  The filter on directory entries: the name is longer than \<^verbatim>\<open>.xor\<close> and ends
  with it.
\<close>

definition XORFS_SOURCE_FILE_EXTENSION :: string where
  "XORFS_SOURCE_FILE_EXTENSION = ''.xor''"

definition ends_with_source_file_extension :: "string \<Rightarrow> bool" where
  "ends_with_source_file_extension d_name =
     (length XORFS_SOURCE_FILE_EXTENSION < length d_name
      \<and> drop (length d_name - length XORFS_SOURCE_FILE_EXTENSION) d_name
          = XORFS_SOURCE_FILE_EXTENSION)"

text \<open>
  The loop that looks for the first digit: it stops with an error on the last character
  of the name. (A name that has passed the filter is not empty.)
\<close>

fun find_first_number :: "string \<Rightarrow> nat \<Rightarrow> nat option" where
  "find_first_number [] first_number_offset = None"
| "find_first_number (current_char # rest) first_number_offset =
     (if is_digit current_char then Some first_number_offset
      else if rest = [] then None
      else find_first_number rest (first_number_offset + 1))"

subsection \<open>Opening the source files\<close>

datatype d_type = DT_UNKNOWN | DT_FIFO | DT_CHR | DT_DIR | DT_BLK | DT_REG | DT_LNK | DT_SOCK | DT_WHT

record dirent =
  d_name :: string
  d_type :: d_type

text \<open>
  What the file system has behind a directory entry: whether \<^verbatim>\<open>fopen\<close> for reading
  succeeds, what \<^verbatim>\<open>fstat\<close> delivers (nothing when it fails), and the bytes.
\<close>

record disk_file =
  fopen_succeeds :: bool
  fstat :: "stat option"
  bytes :: "byte list"

text \<open>
  Every allocation of the loader can fail. \<open>alloc index site\<close> tells whether the allocation
  at \<open>site\<close> succeeds while the source file at \<open>index\<close> is filled in.
\<close>

datatype allocation =
  Realloc_source_files | Malloc_file_path | Strdup_name | Malloc_backup_name
  | Strdup_output_file_name

type_synonym allocator = "nat \<Rightarrow> allocation \<Rightarrow> bool"

text \<open>
  The new element of the array after the block \<^verbatim>\<open>Safe-fill the structure\<close>. The
  fields that the block does not write (\<^verbatim>\<open>stat\<close> and the time of the backup) are 0
  here.
\<close>

definition safe_filled :: xorfs_source_file where
  "safe_filled =
     \<lparr>file_name = [], file_descriptor = None, stat = \<lparr>st_size = 0, st_mtime = 0\<rparr>,
      backup = \<lparr>name = [], number = 0, xor_against_number = 0, xor_against_source_file = None,
                time = 0, output_file_name = []\<rparr>\<rparr>"

text \<open>
  The block \<^verbatim>\<open>Get backup information\<close>: the parser of the file name. It yields the
  backup record, or the return value of the failure, or no result at all: for a name that
  starts with a digit, \<^verbatim>\<open>strncpy\<close> is called with the length \<open>-1\<close>.
\<close>

definition get_backup_information ::
  "allocator \<Rightarrow> nat \<Rightarrow> string \<Rightarrow> int \<Rightarrow> (int + xorfs_backup) option" where
  "get_backup_information alloc index fname mtime =
     (case find_first_number fname 0 of
        None \<Rightarrow> Some (Inl 5)
      | Some first_number_offset \<Rightarrow>
          if \<not> alloc index Malloc_backup_name then Some (Inl 5)
          else if first_number_offset = 0 then None
          else
            let name_end_offset = first_number_offset - 1;
                backup_name = take name_end_offset fname;
                (first_number, xOrDot, first_errno) = strtol (drop first_number_offset fname);
                offset_of_dot_or_x = length fname - length xOrDot;
                finish = (\<lambda>xor_against dot.
                  if deref dot \<noteq> CHR ''.'' then Some (Inl 5)
                  else if \<not> alloc index Strdup_output_file_name then Some (Inl 5)
                  else Some (Inr
                    \<lparr>name = backup_name,
                     number = word_of_int first_number,
                     xor_against_number = xor_against,
                     xor_against_source_file = None,
                     time = mtime,
                     output_file_name = take offset_of_dot_or_x fname @ ''.dat''\<rparr>))
            in if deref xOrDot = CHR ''x''
               then (let (second_number, dot, second_errno) = strtol (tl xOrDot)
                     in if second_errno then Some (Inl 5)
                        else finish (word_of_int second_number) dot)
               else if deref xOrDot = CHR ''.'' then finish 0 xOrDot
               else Some (Inl 5))"

text \<open>
  One round of the \<^verbatim>\<open>readdir\<close> loop. \<open>Inr\<close> is the state the loop goes on with,
  \<open>Inl\<close> the return value and the state with which it jumps to
  \<^verbatim>\<open>failure_close_files\<close>. Of a half-filled entry only the stream matters there.
  When \<^verbatim>\<open>realloc\<close> fails, the message is printed with the format
  \<^verbatim>\<open>"Unable to allocate %l bytes of memory: %s\n"\<close>, in which \<^verbatim>\<open>%l \<close> is no
  conversion: the size is taken for the string of \<^verbatim>\<open>%s\<close>, and the call does not come
  back to set the return value 2. That round has no result.
\<close>

definition open_source_file ::
  "allocator \<Rightarrow> xorfs_globals \<Rightarrow> dirent \<times> disk_file
     \<Rightarrow> (int \<times> xorfs_globals + xorfs_globals) option" where
  "open_source_file alloc g entry =
     (let index = length (files g) in
      if d_type (fst entry) \<noteq> DT_REG \<and> d_type (fst entry) \<noteq> DT_UNKNOWN then Some (Inr g)
      else if \<not> ends_with_source_file_extension (d_name (fst entry)) then Some (Inr g)
      else if \<not> alloc index Realloc_source_files then None
      else
        let g1 = g\<lparr>files := files g @ [safe_filled]\<rparr> in
        if \<not> alloc index Malloc_file_path then Some (Inl (3, g1))
        else if \<not> fopen_succeeds (snd entry) then Some (Inl (3, g1))
        else
          let stream = \<lparr>fileno = index, content = bytes (snd entry), pos = 0\<rparr>;
              g2 = g\<lparr>files := files g @ [safe_filled\<lparr>file_descriptor := Some stream\<rparr>],
                     open_streams := open_streams g @ [index]\<rparr>
          in
          if \<not> alloc index Strdup_name then Some (Inl (3, g2))
          else
            (case fstat (snd entry) of
               None \<Rightarrow> Some (Inl (4, g2))
             | Some st \<Rightarrow>
                 (case get_backup_information alloc index (d_name (fst entry)) (st_mtime st) of
                    None \<Rightarrow> None
                  | Some (Inl return_value) \<Rightarrow> Some (Inl (return_value, g2))
                  | Some (Inr backup_info) \<Rightarrow>
                      Some (Inr (g\<lparr>files := files g @
                           [\<lparr>file_name = d_name (fst entry), file_descriptor = Some stream,
                             stat = st, backup = backup_info\<rparr>],
                         open_streams := open_streams g @ [index]\<rparr>)))))"

fun open_source_files_loop ::
  "allocator \<Rightarrow> xorfs_globals \<Rightarrow> (dirent \<times> disk_file) list
     \<Rightarrow> (int \<times> xorfs_globals + xorfs_globals) option" where
  "open_source_files_loop alloc g [] = Some (Inr g)"
| "open_source_files_loop alloc g (entry # entries) =
     (case open_source_file alloc g entry of
        None \<Rightarrow> None
      | Some (Inl failure) \<Rightarrow> Some (Inl failure)
      | Some (Inr g') \<Rightarrow> open_source_files_loop alloc g' entries)"

text \<open>The block \<^verbatim>\<open>Check backup links and fill the pointers\<close>.\<close>

definition set_xor_against_source_file ::
  "xorfs_globals \<Rightarrow> nat \<Rightarrow> nat option \<Rightarrow> xorfs_globals" where
  "set_xor_against_source_file g index p =
     g\<lparr>files := (files g)[index := (files g ! index)
         \<lparr>backup := (backup (files g ! index))\<lparr>xor_against_source_file := p\<rparr>\<rparr>]\<rparr>"

function check_backup_links :: "xorfs_globals \<Rightarrow> nat \<Rightarrow> int \<times> xorfs_globals + xorfs_globals" where
  "check_backup_links g index =
     (if index < length (files g)
      then
        (if xor_against_number (backup (files g ! index)) = 0
         then check_backup_links (set_xor_against_source_file g index None) (index + 1)
         else
           (case get_source_file_by_backup_name_and_number (files g)
                   (name (backup (files g ! index)))
                   (xor_against_number (backup (files g ! index))) of
              Some xor_against \<Rightarrow>
                check_backup_links (set_xor_against_source_file g index (Some xor_against))
                  (index + 1)
            | None \<Rightarrow> Inl (6, g)))
      else Inr g)"
  by pat_completeness auto
termination
  by (relation "measure (\<lambda>(g, index). length (files g) - index)")
    (auto simp: set_xor_against_source_file_def)

text \<open>
  \<^verbatim>\<open>xorfs_close_source_files\<close> closes the stream of every entry that has one and frees
  the array.
\<close>

fun close_files_loop :: "xorfs_source_file list \<Rightarrow> nat list \<Rightarrow> nat list" where
  "close_files_loop [] streams = streams"
| "close_files_loop (source_file # rest) streams =
     close_files_loop rest
       (case file_descriptor source_file of
          None \<Rightarrow> streams
        | Some stream \<Rightarrow> remove1 (fileno stream) streams)"

definition xorfs_close_source_files :: "xorfs_globals \<Rightarrow> xorfs_globals" where
  "xorfs_close_source_files g =
     g\<lparr>open_streams := close_files_loop (files g) (open_streams g), files_freed := True\<rparr>"

text \<open>
  \<^verbatim>\<open>xorfs_open_source_files\<close>: the directory is \<open>None\<close> when \<^verbatim>\<open>opendir\<close>
  fails. The result is the return value and the global state left behind.
\<close>

definition xorfs_open_source_files ::
  "allocator \<Rightarrow> (dirent \<times> disk_file) list option \<Rightarrow> xorfs_globals
     \<Rightarrow> (int \<times> xorfs_globals) option" where
  "xorfs_open_source_files alloc source_directory g =
     (case source_directory of
        None \<Rightarrow> Some (1, g)
      | Some entries \<Rightarrow>
          (case open_source_files_loop alloc g entries of
             None \<Rightarrow> None
           | Some (Inl (return_value, g1)) \<Rightarrow> Some (return_value, xorfs_close_source_files g1)
           | Some (Inr g1) \<Rightarrow>
               (case check_backup_links g1 0 of
                  Inl (return_value, g2) \<Rightarrow> Some (return_value, xorfs_close_source_files g2)
                | Inr g2 \<Rightarrow> Some (0, g2))))"

text \<open>
  \<^verbatim>\<open>main\<close> either returns 1 before the file system is mounted or enters
  \<^verbatim>\<open>fuse_main\<close> with the loaded source files.
\<close>

datatype main_outcome = Returned int xorfs_globals | Serving xorfs_globals

definition main :: "allocator \<Rightarrow> (dirent \<times> disk_file) list option \<Rightarrow> main_outcome option" where
  "main alloc source_directory =
     (case xorfs_open_source_files alloc source_directory initial_globals of
        None \<Rightarrow> None
      | Some (return_value, g) \<Rightarrow>
          if return_value \<noteq> 0 then Some (Returned 1 g) else Some (Serving g))"

subsection \<open>Two reads on one stream\<close>

text \<open>
  \<^verbatim>\<open>fuse_main\<close> serves requests on several threads, and every read of a source file
  goes through the one stream that was opened for it. A call of \<^verbatim>\<open>xorfs_read_plain\<close>
  makes two calls on that stream, \<^verbatim>\<open>fseek\<close> and then \<^verbatim>\<open>fread\<close>. A reader
  is such a call in progress: what it was asked for, how far it has come (0 before
  \<^verbatim>\<open>fseek\<close>, 1 before \<^verbatim>\<open>fread\<close>, 2 when it has returned), and what it
  returned: the \<^verbatim>\<open>int\<close> and the bytes it put into its buffer.
\<close>

record reader =
  reader_offset :: int
  reader_size :: nat
  reader_pc :: nat
  reader_result :: "(int \<times> byte list) option"

definition new_reader :: "int \<Rightarrow> nat \<Rightarrow> reader" where
  "new_reader offset sz =
     \<lparr>reader_offset = offset, reader_size = sz, reader_pc = 0, reader_result = None\<rparr>"

definition reader_step :: "FILE \<Rightarrow> reader \<Rightarrow> FILE \<times> reader" where
  "reader_step stream r =
     (if reader_pc r = 0
      then (case fseek stream (reader_offset r) of
              None \<Rightarrow> (stream, r\<lparr>reader_pc := 2, reader_result := Some (- EINVAL, [])\<rparr>)
            | Some stream1 \<Rightarrow> (stream1, r\<lparr>reader_pc := 1\<rparr>))
      else if reader_pc r = 1
      then (let (data, stream2) = fread stream (reader_size r)
            in (stream2,
                r\<lparr>reader_pc := 2, reader_result := Some (int_of_size_t (length data), data)\<rparr>))
      else (stream, r))"

text \<open>
  A schedule says which of two readers makes its next call: \<open>True\<close> for the first,
  \<open>False\<close> for the second.
\<close>

fun run_schedule :: "bool list \<Rightarrow> FILE \<Rightarrow> reader \<Rightarrow> reader \<Rightarrow> FILE \<times> reader \<times> reader" where
  "run_schedule [] stream a b = (stream, a, b)"
| "run_schedule (first # schedule) stream a b =
     (if first
      then (let (stream1, a1) = reader_step stream a in run_schedule schedule stream1 a1 b)
      else (let (stream1, b1) = reader_step stream b in run_schedule schedule stream1 a b1))"

subsection \<open>Example data\<close>

text \<open>
  A loaded source file as \<^verbatim>\<open>xorfs_open_source_files\<close> leaves it: the file name, the number
  of its stream, the bytes of the file, and the fields of the backup.
\<close>

definition loaded_source_file ::
  "string \<Rightarrow> nat \<Rightarrow> byte list \<Rightarrow> string \<Rightarrow> unsigned_int \<Rightarrow> unsigned_int \<Rightarrow> nat option \<Rightarrow> string
     \<Rightarrow> xorfs_source_file" where
  "loaded_source_file fname stream_number data backup_name n against link output =
     \<lparr>file_name = fname,
      file_descriptor = Some \<lparr>fileno = stream_number, content = data, pos = 0\<rparr>,
      stat = \<lparr>st_size = length data, st_mtime = 0\<rparr>,
      backup = \<lparr>name = backup_name, number = n, xor_against_number = against,
                xor_against_source_file = link, time = 0, output_file_name = output\<rparr>\<rparr>"

text \<open>
  Three source files of one backup: the plain image 1, image 2 xor-ed against 1, and a second
  image 1, xor-ed against 2.
\<close>

definition colliding_files :: "xorfs_source_file list" where
  "colliding_files =
     [loaded_source_file ''a-1.xor'' 0 [1, 2, 3] ''a'' 1 0 None ''a-1.dat'',
      loaded_source_file ''a-2x1.xor'' 1 [7, 7, 7] ''a'' 2 1 (Some 0) ''a-2.dat'',
      loaded_source_file ''a-1x2.xor'' 2 [4, 4, 4] ''a'' 1 2 (Some 1) ''a-1.dat'']"

text \<open>
  A plain image with the bytes 1, 2, 3 and an image xor-ed against it whose true content
  is 5, 6, 7; and the same pair with a plain image that is one byte short.
\<close>

definition two_level_files :: "xorfs_source_file list" where
  "two_level_files =
     [loaded_source_file ''a-1.xor'' 0 [1, 2, 3] ''a'' 1 0 None ''a-1.dat'',
      loaded_source_file ''a-2x1.xor'' 1 [4, 4, 4] ''a'' 2 1 (Some 0) ''a-2.dat'']"

definition short_base_files :: "xorfs_source_file list" where
  "short_base_files =
     [loaded_source_file ''a-1.xor'' 0 [1, 2] ''a'' 1 0 None ''a-1.dat'',
      loaded_source_file ''a-2x1.xor'' 1 [4, 4, 4] ''a'' 2 1 (Some 0) ''a-2.dat'']"

text \<open>An allocator whose blocks are filled with the byte 170.\<close>

definition malloc_succeeds :: "nat \<Rightarrow> (nat \<Rightarrow> byte) option" where
  "malloc_succeeds depth = Some (\<lambda>i. 170)"

text \<open>A regular file of a source directory, and a loader whose allocations all succeed.\<close>

definition regular_file :: "string \<Rightarrow> byte list \<Rightarrow> dirent \<times> disk_file" where
  "regular_file fname data =
     (\<lparr>d_name = fname, d_type = DT_REG\<rparr>,
      \<lparr>fopen_succeeds = True, fstat = Some \<lparr>st_size = length data, st_mtime = 0\<rparr>,
       bytes = data\<rparr>)"

definition always_succeeds :: allocator where
  "always_succeeds index site = True"

text \<open>
  Source directories: an image xor-ed against itself; a plain image and an xor-ed image with
  the same number; two plain images with the same name and number; an image xor-ed against
  an image that is not there; an image with an \<open>x\<close> and no number behind it.
\<close>

definition self_reference_directory :: "(dirent \<times> disk_file) list" where
  "self_reference_directory = [regular_file ''a-1x1.xor'' [1, 2, 3]]"

definition same_output_directory :: "(dirent \<times> disk_file) list" where
  "same_output_directory =
     [regular_file ''a-1.xor'' [1, 2, 3], regular_file ''a-2.xor'' [7, 7, 7],
      regular_file ''a-1x2.xor'' [4, 4, 4]]"


definition broken_chain_directory :: "(dirent \<times> disk_file) list" where
  "broken_chain_directory = [regular_file ''a-1.xor'' [1, 2, 3], regular_file ''a-3x2.xor'' [4, 4, 4]]"

definition missing_number_directory :: "(dirent \<times> disk_file) list" where
  "missing_number_directory = [regular_file ''a-1x.xor'' [1, 2, 3]]"

text \<open>A stream over four bytes, shared by two readers.\<close>

definition shared_stream :: FILE where
  "shared_stream = \<lparr>fileno = 0, content = [1, 2, 3, 4], pos = 0\<rparr>"

text \<open>What the loader leaves behind for some of these directories.\<close>

definition same_output_globals :: xorfs_globals where
  "same_output_globals =
     \<lparr>files = [loaded_source_file ''a-1.xor'' 0 [1, 2, 3] ''a'' 1 0 None ''a-1.dat'',
               loaded_source_file ''a-2.xor'' 1 [7, 7, 7] ''a'' 2 0 None ''a-2.dat'',
               loaded_source_file ''a-1x2.xor'' 2 [4, 4, 4] ''a'' 1 2 (Some 1) ''a-1.dat''],
      files_freed = False, open_streams = [0, 1, 2]\<rparr>"


definition missing_number_globals :: xorfs_globals where
  "missing_number_globals =
     \<lparr>files = [loaded_source_file ''a-1x.xor'' 0 [1, 2, 3] ''a'' 1 0 None ''a-1.dat''],
      files_freed = False, open_streams = [0]\<rparr>"

definition self_reference_globals :: xorfs_globals where
  "self_reference_globals =
     \<lparr>files = [loaded_source_file ''a-1x1.xor'' 0 [1, 2, 3] ''a'' 1 1 (Some 0) ''a-1.dat''],
      files_freed = False, open_streams = [0]\<rparr>"


subsection \<open>Notions used in the statements\<close>

text \<open>
  The directory entries that the loader opens; a source file without the pointer that the
  link check fills in; the front of a file name up to the end of its first run of digits; the
  streams held by the entries of the array; an xor-ed image whose backup number matches no
  entry of the same name.
\<close>

definition is_source_file :: "dirent \<times> disk_file \<Rightarrow> bool" where
  "is_source_file entry =
     ((d_type (fst entry) = DT_REG \<or> d_type (fst entry) = DT_UNKNOWN)
      \<and> ends_with_source_file_extension (d_name (fst entry)))"

definition forget_link :: "xorfs_source_file \<Rightarrow> xorfs_source_file" where
  "forget_link source_file =
     source_file\<lparr>backup := (backup source_file)\<lparr>xor_against_source_file := None\<rparr>\<rparr>"

definition name_and_number_part :: "string \<Rightarrow> string" where
  "name_and_number_part fname =
     takeWhile (\<lambda>c. \<not> is_digit c) fname
       @ takeWhile is_digit (dropWhile (\<lambda>c. \<not> is_digit c) fname)"

definition streams_of :: "xorfs_source_file list \<Rightarrow> nat list" where
  "streams_of fs =
     concat (map (\<lambda>source_file. case file_descriptor source_file of
                                   None \<Rightarrow> [] | Some stream \<Rightarrow> [fileno stream]) fs)"

definition unresolved :: "xorfs_source_file list \<Rightarrow> nat \<Rightarrow> bool" where
  "unresolved fs index =
     (xor_against_number (backup (fs ! index)) \<noteq> 0
      \<and> (\<forall>j < length fs.
            \<not> (number (backup (fs ! j)) = xor_against_number (backup (fs ! index))
                \<and> name (backup (fs ! j)) = name (backup (fs ! index)))))"

text \<open>
  Two global states that differ in the pointers between source files at most; and the pointer
  that the link check computes for a source file.
\<close>

definition same_but_links :: "xorfs_globals \<Rightarrow> xorfs_globals \<Rightarrow> bool" where
  "same_but_links g g' =
     (map forget_link (files g') = map forget_link (files g)
      \<and> open_streams g' = open_streams g \<and> files_freed g' = files_freed g)"

definition resolved_link :: "xorfs_source_file list \<Rightarrow> xorfs_source_file \<Rightarrow> nat option" where
  "resolved_link fs source_file =
     (if xor_against_number (backup source_file) = 0 then None
      else get_source_file_by_backup_name_and_number fs (name (backup source_file))
             (xor_against_number (backup source_file)))"

text \<open>
  A source file from which the pointers lead to a plain image in at most \<open>k\<close> steps, every
  source file on the way with an open stream.
\<close>

fun reaches_plain_image :: "nat \<Rightarrow> xorfs_source_file list \<Rightarrow> nat \<Rightarrow> bool" where
  "reaches_plain_image 0 fs source_file =
     (source_file < length fs \<and> file_descriptor (fs ! source_file) \<noteq> None
      \<and> xor_against_number (backup (fs ! source_file)) = 0)"
| "reaches_plain_image (Suc k) fs source_file =
     (source_file < length fs \<and> file_descriptor (fs ! source_file) \<noteq> None
      \<and> (xor_against_number (backup (fs ! source_file)) = 0
           \<or> (case xor_against_source_file (backup (fs ! source_file)) of
                 None \<Rightarrow> False
               | Some xor_against \<Rightarrow> reaches_plain_image k fs xor_against)))"


text \<open>
  The read of the specification (its section 4.3), in the specification's words, over the
  entries as the loader leaves them. The bytes of an entry are the content of its own file.
  A read obtains the \<open>n\<close> bytes of the entry's own file that lie at the offset, at most the
  requested length, fewer at the end of the file. For a base image these are the result. For
  a delta the predecessor's bytes are reconstructed for the same offset and the length \<open>n\<close>;
  fewer than \<open>n\<close> of them is the failure \<^verbatim>\<open>ChainMismatch\<close> (the program's \<open>-EIO\<close>), a
  failure of the predecessor is the failure of the read, and otherwise the result is the xor,
  position by position, of the \<open>n\<close> own bytes and the \<open>n\<close> bytes of the predecessor. \<open>k\<close>
  bounds the number of predecessors that are followed.
\<close>

definition stored_bytes :: "xorfs_source_file \<Rightarrow> byte list" where
  "stored_bytes source_file =
     (case file_descriptor source_file of None \<Rightarrow> [] | Some stream \<Rightarrow> content stream)"

fun specified_read :: "nat \<Rightarrow> xorfs_source_file list \<Rightarrow> nat \<Rightarrow> nat \<Rightarrow> nat \<Rightarrow> int + byte list" where
  "specified_read 0 fs entry offset len =
     Inr (take len (drop offset (stored_bytes (fs ! entry))))"
| "specified_read (Suc k) fs entry offset len =
     (let own = take len (drop offset (stored_bytes (fs ! entry)));
          n = length own
      in if xor_against_number (backup (fs ! entry)) = 0 then Inr own
         else (case xor_against_source_file (backup (fs ! entry)) of
                 None \<Rightarrow> Inr own
               | Some predecessor \<Rightarrow>
                   (case specified_read k fs predecessor offset n of
                      Inl failure \<Rightarrow> Inl failure
                    | Inr predecessor_bytes \<Rightarrow>
                        if length predecessor_bytes < n then Inl (- EIO)
                        else Inr (map2 (XOR) own predecessor_bytes))))"

text \<open>
  A call of \<^verbatim>\<open>xorfs_read_backup\<close> that comes back with what the specification's read
  yields: the failure as its return value, or the number of the bytes as its return value and
  the bytes at the front of the buffer.
\<close>

definition returns_as_specified ::
  "(int \<times> byte list \<times> xorfs_source_file list) option \<Rightarrow> int + byte list \<Rightarrow> bool" where
  "returns_as_specified result specified =
     (case result of
        None \<Rightarrow> False
      | Some (r, buffer, fs) \<Rightarrow>
          (case specified of
             Inl failure \<Rightarrow> r = failure
           | Inr data \<Rightarrow> r = int (length data) \<and> take (length data) buffer = data))"
section \<open>Properties\<close>

subsection \<open>The xor of two buffers\<close>

declare xor_uintmax_chunks.simps [simp del] xor_byte_by_byte.simps [simp del]

lemma int_of_size_t_small: "int n \<le> INT_MAX \<Longrightarrow> int_of_size_t n = int n"
  by (simp add: int_of_size_t_def INT_MAX_def)

lemma bytes_of_uintmax_xor:
  "bytes_of_uintmax n (v XOR w) = map2 (XOR) (bytes_of_uintmax n v) (bytes_of_uintmax n w)"
proof (induction n arbitrary: v w)
  case 0
  show ?case by simp
next
  case (Suc n)
  have "ucast (v XOR w) = (ucast v XOR ucast w :: byte)"
    by (rule bit_word_eqI) (simp add: bit_ucast_iff bit_xor_iff)
  moreover have "drop_bit 8 (v XOR w) = drop_bit 8 v XOR drop_bit 8 w"
    by (rule bit_word_eqI) (simp add: bit_drop_bit_eq bit_xor_iff)
  ultimately show ?case using Suc.IH by simp
qed

lemma bytes_of_uintmax_take_bit:
  "8 * n \<le> k \<Longrightarrow> bytes_of_uintmax n (take_bit k w) = bytes_of_uintmax n w"
proof (induction n arbitrary: k w)
  case 0
  show ?case by simp
next
  case (Suc n)
  have low: "(ucast (take_bit k w) :: byte) = ucast w"
    using Suc.prems by (intro bit_word_eqI) (auto simp: bit_ucast_iff bit_take_bit_iff)
  have high: "drop_bit 8 (take_bit k w) = take_bit (k - 8) (drop_bit 8 w)"
    using Suc.prems by (intro bit_word_eqI) (auto simp: bit_drop_bit_eq bit_take_bit_iff)
  have "8 * n \<le> k - 8" using Suc.prems by simp
  then show ?case using Suc.IH low high by simp
qed

lemma bytes_of_uintmax_of_bytes:
  "length bs = n \<Longrightarrow> n \<le> 8 \<Longrightarrow> bytes_of_uintmax n (uintmax_of_bytes bs) = bs"
proof (induction bs arbitrary: n)
  case Nil
  then show ?case by simp
next
  case (Cons b bs)
  then obtain m where n: "n = Suc m" and m: "length bs = m" "m \<le> 7" by (cases n) auto
  let ?w = "uintmax_of_bytes bs"
  have low: "(ucast (ucast b OR push_bit 8 ?w :: uintmax_t) :: byte) = b"
    by (rule bit_word_eqI) (auto simp: bit_ucast_iff bit_or_iff bit_push_bit_iff)
  have high: "drop_bit 8 (ucast b OR push_bit 8 ?w :: uintmax_t) = take_bit 56 ?w"
    by (rule bit_word_eqI)
      (auto simp: bit_drop_bit_eq bit_or_iff bit_push_bit_iff bit_ucast_iff bit_take_bit_iff
        dest: bit_imp_le_length)
  have "bytes_of_uintmax m (take_bit 56 ?w) = bytes_of_uintmax m ?w"
    using m by (intro bytes_of_uintmax_take_bit) simp
  also have "\<dots> = bs" using Cons.IH [of m] m by simp
  finally show ?case using n low high by simp
qed

lemma xor_one_chunk:
  assumes "length a = 8" "length b = 8"
  shows "bytes_of_uintmax 8 (uintmax_of_bytes a XOR uintmax_of_bytes b) = map2 (XOR) a b"
  using assms by (simp add: bytes_of_uintmax_xor bytes_of_uintmax_of_bytes)


lemma length_bytes_of_uintmax: "length (bytes_of_uintmax n w) = n"
  by (induction n arbitrary: w) simp_all

lemma store_uintmax_xor_length:
  assumes "8 * i + 8 \<le> length a"
  shows "length (store_uintmax a i (load_uintmax a i XOR load_uintmax b i)) = length a"
proof -
  show ?thesis using assms by (simp add: store_uintmax_def length_bytes_of_uintmax)
qed

lemma store_uintmax_xor_nth:
  assumes a: "8 * i + 8 \<le> length a" and b: "8 * i + 8 \<le> length b" and j: "j < length a"
  shows "store_uintmax a i (load_uintmax a i XOR load_uintmax b i) ! j =
           (if 8 * i \<le> j \<and> j < 8 * i + 8 then a ! j XOR b ! j else a ! j)"
proof -
  let ?ca = "take 8 (drop (8 * i) a)" and ?cb = "take 8 (drop (8 * i) b)"
  have len: "length ?ca = 8" "length ?cb = 8" using a b by simp_all
  have chunk: "bytes_of_uintmax 8 (load_uintmax a i XOR load_uintmax b i) = map2 (XOR) ?ca ?cb"
    unfolding load_uintmax_def using len by (rule xor_one_chunk)
  have st: "store_uintmax a i (load_uintmax a i XOR load_uintmax b i) =
              take (8 * i) a @ map2 (XOR) ?ca ?cb @ drop (8 * i + 8) a"
    by (simp only: store_uintmax_def chunk)
  consider "j < 8 * i" | "8 * i \<le> j" "j < 8 * i + 8" | "8 * i + 8 \<le> j" by linarith
  then show ?thesis
  proof cases
    case 1
    then show ?thesis using a by (simp add: st nth_append)
  next
    case 2
    then obtain k where k: "j = 8 * i + k" "k < 8" by (metis le_Suc_ex nat_add_left_cancel_less)
    then show ?thesis using a b by (simp add: st nth_append)
  next
    case 3
    then obtain k where k: "j = 8 * i + 8 + k" by (metis le_Suc_ex)
    then show ?thesis using a b j by (simp add: st nth_append)
  qed
qed

lemma xor_uintmax_chunks_spec:
  "0 \<le> i \<Longrightarrow> 8 * nat n \<le> length a \<Longrightarrow> 8 * nat n \<le> length b \<Longrightarrow>
     length (xor_uintmax_chunks i n a b) = length a \<and>
     (\<forall>j < length a. xor_uintmax_chunks i n a b ! j =
        (if 8 * nat i \<le> j \<and> j < 8 * nat n then a ! j XOR b ! j else a ! j))"
proof (induction i n a b rule: xor_uintmax_chunks.induct)
  case (1 i n a b)
  show ?case
  proof (cases "i < n")
    case False
    then have "8 * nat n \<le> 8 * nat i" using "1.prems" by simp
    then show ?thesis using False by (subst (1 2) xor_uintmax_chunks.simps) auto
  next
    case True
    let ?a' = "store_uintmax a (nat i) (load_uintmax a (nat i) XOR load_uintmax b (nat i))"
    have bound: "8 * nat i + 8 \<le> 8 * nat n" using True "1.prems"(1) by simp
    then have ia: "8 * nat i + 8 \<le> length a" and ib: "8 * nat i + 8 \<le> length b"
      using "1.prems" by simp_all
    have len: "length ?a' = length a" using ia by (rule store_uintmax_xor_length)
    have nth: "?a' ! j = (if 8 * nat i \<le> j \<and> j < 8 * nat i + 8 then a ! j XOR b ! j else a ! j)"
      if "j < length a" for j using ia ib that by (rule store_uintmax_xor_nth)
    have IH: "length (xor_uintmax_chunks (i + 1) n ?a' b) = length ?a' \<and>
       (\<forall>j < length ?a'. xor_uintmax_chunks (i + 1) n ?a' b ! j =
          (if 8 * nat (i + 1) \<le> j \<and> j < 8 * nat n then ?a' ! j XOR b ! j else ?a' ! j))"
      using "1.IH" [OF True] "1.prems" len by simp
    have unfold: "xor_uintmax_chunks i n a b = xor_uintmax_chunks (i + 1) n ?a' b"
      using True by (subst xor_uintmax_chunks.simps) simp
    have suc: "8 * nat (i + 1) = 8 * nat i + 8" using "1.prems"(1) by (simp add: nat_add_distrib)
    show ?thesis
      unfolding unfold using IH len nth bound by (auto simp: suc)
  qed
qed

lemma xor_byte_by_byte_spec:
  "0 \<le> i \<Longrightarrow> int sz \<le> INT_MAX \<Longrightarrow> sz \<le> length a \<Longrightarrow>
     (\<exists>r. xor_byte_by_byte i sz a b = Some r \<and> length r = length a \<and>
        (\<forall>j < length a. r ! j = (if nat i \<le> j \<and> j < sz then a ! j XOR b ! j else a ! j)))"
proof (induction i sz a b rule: xor_byte_by_byte.induct)
  case (1 i sz a b)
  show ?case
  proof (cases "i < int sz")
    case False
    then have "sz \<le> nat i" by simp
    then show ?thesis using False by (subst xor_byte_by_byte.simps) auto
  next
    case True
    then have ne: "i \<noteq> INT_MAX" using "1.prems"(2) by simp
    let ?a' = "a[nat i := a ! nat i XOR b ! nat i]"
    from "1.IH" [OF True ne] "1.prems"
    obtain r where r: "xor_byte_by_byte (i + 1) sz ?a' b = Some r" "length r = length a"
      "\<And>j. j < length a \<Longrightarrow> r ! j = (if nat (i + 1) \<le> j \<and> j < sz then ?a' ! j XOR b ! j else ?a' ! j)"
      by auto
    have unfold: "xor_byte_by_byte i sz a b = xor_byte_by_byte (i + 1) sz ?a' b"
      using True ne by (subst xor_byte_by_byte.simps) simp
    have suc: "nat (i + 1) = Suc (nat i)" using "1.prems"(1) by (simp add: nat_add_distrib)
    have lt: "nat i < sz" using True "1.prems"(1) by simp
    have "r ! j = (if nat i \<le> j \<and> j < sz then a ! j XOR b ! j else a ! j)" if "j < length a" for j
    proof (cases "j = nat i")
      case True
      then show ?thesis using r(3) [OF that] that lt by (simp add: suc)
    next
      case False
      then show ?thesis using r(3) [OF that] that lt by (auto simp: suc)
    qed
    then show ?thesis unfolding unfold using r(1,2) by blast
  qed
qed

lemma xor_position_wise_length:
  "n \<le> length a \<Longrightarrow> n \<le> length b \<Longrightarrow> length (xor_position_wise n a b) = length a"
  by (simp add: xor_position_wise_def)

lemma xor_position_wise_nth:
  "n \<le> length a \<Longrightarrow> n \<le> length b \<Longrightarrow> j < length a \<Longrightarrow>
     xor_position_wise n a b ! j = (if j < n then a ! j XOR b ! j else a ! j)"
  by (auto simp: xor_position_wise_def nth_append)

lemma xor_uintmax_chunks_position_wise:
  assumes "sz mod 8 = 0" "int sz \<le> INT_MAX" "sz \<le> length a" "sz \<le> length b"
  shows "xor_uintmax_chunks 0 (int_of_size_t (sz div 8)) a b = xor_position_wise sz a b"
proof -
  have n: "int_of_size_t (sz div 8) = int (sz div 8)"
    using assms(2) by (intro int_of_size_t_small) linarith
  have eight: "8 * (sz div 8) = sz" using assms(1) by auto
  have spec: "length (xor_uintmax_chunks 0 (int (sz div 8)) a b) = length a \<and>
     (\<forall>j < length a. xor_uintmax_chunks 0 (int (sz div 8)) a b ! j =
        (if 8 * nat 0 \<le> j \<and> j < 8 * nat (int (sz div 8)) then a ! j XOR b ! j else a ! j))"
    using assms(3,4) eight by (intro xor_uintmax_chunks_spec) simp_all
  show ?thesis
    unfolding n
  proof (rule nth_equalityI)
    show "length (xor_uintmax_chunks 0 (int (sz div 8)) a b) = length (xor_position_wise sz a b)"
      using spec assms(3,4) by (simp add: xor_position_wise_length)
  next
    fix j assume "j < length (xor_uintmax_chunks 0 (int (sz div 8)) a b)"
    then have "j < length a" using spec by simp
    then show "xor_uintmax_chunks 0 (int (sz div 8)) a b ! j = xor_position_wise sz a b ! j"
      using spec assms(3,4) eight by (simp add: xor_position_wise_nth)
  qed
qed

lemma xor_byte_by_byte_position_wise:
  assumes "int sz \<le> INT_MAX" "sz \<le> length a" "sz \<le> length b"
  shows "xor_byte_by_byte 0 sz a b = Some (xor_position_wise sz a b)"
proof -
  from xor_byte_by_byte_spec [of 0 sz a b] assms
  obtain r where r: "xor_byte_by_byte 0 sz a b = Some r" "length r = length a"
    "\<And>j. j < length a \<Longrightarrow> r ! j = (if j < sz then a ! j XOR b ! j else a ! j)"
    by auto
  have "r = xor_position_wise sz a b"
    using r(2,3) assms(2,3)
    by (intro nth_equalityI) (simp_all add: xor_position_wise_length xor_position_wise_nth)
  then show ?thesis using r(1) by simp
qed

lemma xor_buffers_position_wise:
  assumes "int sz \<le> INT_MAX" "sz \<le> length a" "sz \<le> length b"
  shows "xor_buffers sz a b = Some (xor_position_wise sz a b)"
  using assms
  by (simp add: xor_buffers_def xor_uintmax_chunks_position_wise xor_byte_by_byte_position_wise)

subsection \<open>Lookups\<close>

declare source_file_by_file_name_from.simps [simp del]
declare source_file_by_backup_name_and_number_from.simps [simp del]

lemma source_file_by_file_name_from_Some:
  "source_file_by_file_name_from fs requested_name index = Some i \<longleftrightarrow>
     index \<le> i \<and> i < length fs \<and> output_file_name (backup (fs ! i)) = requested_name
     \<and> (\<forall>j. index \<le> j \<and> j < i \<longrightarrow> output_file_name (backup (fs ! j)) \<noteq> requested_name)"
proof (induction fs requested_name index rule: source_file_by_file_name_from.induct)
  case (1 fs requested_name index)
  show ?case
  proof (cases "index < length fs")
    case False
    then show ?thesis by (subst source_file_by_file_name_from.simps) auto
  next
    case in_range: True
    show ?thesis
    proof (cases "output_file_name (backup (fs ! index)) = requested_name")
      case True
      have "i = index" if "index \<le> i"
        "\<forall>j. index \<le> j \<and> j < i \<longrightarrow> output_file_name (backup (fs ! j)) \<noteq> requested_name"
        using that True by (metis le_neq_implies_less order_refl)
      then show ?thesis
        using in_range True by (subst source_file_by_file_name_from.simps) auto
    next
      case False
      have "(\<forall>j. index \<le> j \<and> j < i \<longrightarrow> output_file_name (backup (fs ! j)) \<noteq> requested_name)
          \<longleftrightarrow> (\<forall>j. index + 1 \<le> j \<and> j < i \<longrightarrow> output_file_name (backup (fs ! j)) \<noteq> requested_name)"
        using False by (metis Suc_eq_plus1 Suc_leI le_neq_implies_less add_leD1)
      moreover have "index \<le> i \<and> output_file_name (backup (fs ! i)) = requested_name
          \<longleftrightarrow> index + 1 \<le> i \<and> output_file_name (backup (fs ! i)) = requested_name"
        using False by (metis Suc_eq_plus1 Suc_leI le_neq_implies_less add_leD1)
      ultimately show ?thesis
        using in_range False "1.IH" [OF in_range False]
        by (subst source_file_by_file_name_from.simps) auto
    qed
  qed
qed

lemma source_file_by_file_name_from_None:
  "source_file_by_file_name_from fs requested_name index = None \<longleftrightarrow>
     (\<forall>j. index \<le> j \<and> j < length fs \<longrightarrow> output_file_name (backup (fs ! j)) \<noteq> requested_name)"
proof (induction fs requested_name index rule: source_file_by_file_name_from.induct)
  case (1 fs requested_name index)
  show ?case
  proof (cases "index < length fs")
    case False
    then show ?thesis by (subst source_file_by_file_name_from.simps) auto
  next
    case in_range: True
    show ?thesis
    proof (cases "output_file_name (backup (fs ! index)) = requested_name")
      case True
      then show ?thesis
        using in_range by (subst source_file_by_file_name_from.simps) auto
    next
      case False
      have "(\<forall>j. index \<le> j \<and> j < length fs \<longrightarrow> output_file_name (backup (fs ! j)) \<noteq> requested_name)
          \<longleftrightarrow> (\<forall>j. index + 1 \<le> j \<and> j < length fs \<longrightarrow> output_file_name (backup (fs ! j)) \<noteq> requested_name)"
        using False by (metis Suc_eq_plus1 Suc_leI le_neq_implies_less add_leD1)
      then show ?thesis
        using in_range False "1.IH" [OF in_range False]
        by (subst source_file_by_file_name_from.simps) auto
    qed
  qed
qed

lemma source_file_by_backup_name_and_number_from_Some:
  "source_file_by_backup_name_and_number_from fs requested_name requested_number index = Some i \<longleftrightarrow>
     index \<le> i \<and> i < length fs \<and> (number (backup (fs ! i)) = requested_number \<and> name (backup (fs ! i)) = requested_name)
     \<and> (\<forall>j. index \<le> j \<and> j < i \<longrightarrow> \<not> (number (backup (fs ! j)) = requested_number \<and> name (backup (fs ! j)) = requested_name))"
proof (induction fs requested_name requested_number index rule: source_file_by_backup_name_and_number_from.induct)
  case (1 fs requested_name requested_number index)
  show ?case
  proof (cases "index < length fs")
    case False
    then show ?thesis by (subst source_file_by_backup_name_and_number_from.simps) auto
  next
    case in_range: True
    show ?thesis
    proof (cases "(number (backup (fs ! index)) = requested_number \<and> name (backup (fs ! index)) = requested_name)")
      case True
      have "i = index" if "index \<le> i"
        "\<forall>j. index \<le> j \<and> j < i \<longrightarrow> \<not> (number (backup (fs ! j)) = requested_number \<and> name (backup (fs ! j)) = requested_name)"
        using that True by (metis le_neq_implies_less order_refl)
      then show ?thesis
        using in_range True by (subst source_file_by_backup_name_and_number_from.simps) auto
    next
      case False
      have "(\<forall>j. index \<le> j \<and> j < i \<longrightarrow> \<not> (number (backup (fs ! j)) = requested_number \<and> name (backup (fs ! j)) = requested_name))
          \<longleftrightarrow> (\<forall>j. index + 1 \<le> j \<and> j < i \<longrightarrow> \<not> (number (backup (fs ! j)) = requested_number \<and> name (backup (fs ! j)) = requested_name))"
        using False by (metis Suc_eq_plus1 Suc_leI le_neq_implies_less add_leD1)
      moreover have "index \<le> i \<and> (number (backup (fs ! i)) = requested_number \<and> name (backup (fs ! i)) = requested_name)
          \<longleftrightarrow> index + 1 \<le> i \<and> (number (backup (fs ! i)) = requested_number \<and> name (backup (fs ! i)) = requested_name)"
        using False by (metis Suc_eq_plus1 Suc_leI le_neq_implies_less add_leD1)
      ultimately show ?thesis
        using in_range False "1.IH" [OF in_range False]
        by (subst source_file_by_backup_name_and_number_from.simps) auto
    qed
  qed
qed

lemma source_file_by_backup_name_and_number_from_None:
  "source_file_by_backup_name_and_number_from fs requested_name requested_number index = None \<longleftrightarrow>
     (\<forall>j. index \<le> j \<and> j < length fs \<longrightarrow> \<not> (number (backup (fs ! j)) = requested_number \<and> name (backup (fs ! j)) = requested_name))"
proof (induction fs requested_name requested_number index rule: source_file_by_backup_name_and_number_from.induct)
  case (1 fs requested_name requested_number index)
  show ?case
  proof (cases "index < length fs")
    case False
    then show ?thesis by (subst source_file_by_backup_name_and_number_from.simps) auto
  next
    case in_range: True
    show ?thesis
    proof (cases "(number (backup (fs ! index)) = requested_number \<and> name (backup (fs ! index)) = requested_name)")
      case True
      then show ?thesis
        using in_range by (subst source_file_by_backup_name_and_number_from.simps) auto
    next
      case False
      have "(\<forall>j. index \<le> j \<and> j < length fs \<longrightarrow> \<not> (number (backup (fs ! j)) = requested_number \<and> name (backup (fs ! j)) = requested_name))
          \<longleftrightarrow> (\<forall>j. index + 1 \<le> j \<and> j < length fs \<longrightarrow> \<not> (number (backup (fs ! j)) = requested_number \<and> name (backup (fs ! j)) = requested_name))"
        using False by (metis Suc_eq_plus1 Suc_leI le_neq_implies_less add_leD1)
      then show ?thesis
        using in_range False "1.IH" [OF in_range False]
        by (subst source_file_by_backup_name_and_number_from.simps) auto
    qed
  qed
qed

subsection \<open>Reading\<close>

lemma int_of_size_t_le: "int_of_size_t n \<le> int n"
proof -
  have "int n mod 2 ^ 32 \<le> int n" by (rule zmod_le_nonneg_dividend) simp
  then show ?thesis by (simp add: int_of_size_t_def Let_def)
qed

lemma xorfs_read_plain_Some:
  assumes "file_descriptor source_file = Some stream" and "0 \<le> offset"
  shows "xorfs_read_plain source_file buffer offset sz =
           Some (int_of_size_t (length (take sz (drop (nat offset) (content stream)))),
                 take sz (drop (nat offset) (content stream))
                   @ drop (length (take sz (drop (nat offset) (content stream)))) buffer,
                 source_file\<lparr>file_descriptor := Some (stream
                   \<lparr>pos := nat offset + length (take sz (drop (nat offset) (content stream)))\<rparr>)\<rparr>)"
  using assms by (simp add: xorfs_read_plain_def fseek_def fread_def Let_def)

lemma xorfs_read_plain_bounds:
  assumes "xorfs_read_plain source_file buffer offset sz = Some (r, buffer1, source_file1)"
    and "sz \<le> length buffer"
  shows "r \<le> int sz" and "length buffer1 = length buffer"
proof -
  obtain stream where stream: "file_descriptor source_file = Some stream"
    using assms(1) by (auto simp: xorfs_read_plain_def split: option.splits)
  show "r \<le> int sz"
  proof (cases "0 \<le> offset")
    case True
    let ?data = "take sz (drop (nat offset) (content stream))"
    have "r = int_of_size_t (length ?data)"
      using assms(1) xorfs_read_plain_Some [OF stream True, of buffer sz] by simp
    moreover have "int_of_size_t (length ?data) \<le> int (length ?data)" by (rule int_of_size_t_le)
    moreover have "length ?data \<le> sz" by simp
    ultimately show ?thesis by linarith
  next
    case False
    then show ?thesis
      using assms(1) stream by (simp add: xorfs_read_plain_def fseek_def EINVAL_def)
  qed
  show "length buffer1 = length buffer"
  proof (cases "0 \<le> offset")
    case True
    let ?data = "take sz (drop (nat offset) (content stream))"
    have "buffer1 = ?data @ drop (length ?data) buffer"
      using assms(1) xorfs_read_plain_Some [OF stream True, of buffer sz] by simp
    moreover have "length ?data \<le> sz" by simp
    ultimately show ?thesis using assms(2) by simp
  next
    case False
    then show ?thesis
      using assms(1) stream by (simp add: xorfs_read_plain_def fseek_def)
  qed
qed

lemma xor_buffers_length:
  assumes "xor_buffers sz a b = Some c" "int sz \<le> INT_MAX" "sz \<le> length a" "sz \<le> length b"
  shows "length c = length a"
  using assms xor_buffers_position_wise [of sz a b] by (auto simp: xor_position_wise_length)

text \<open>
  A read that returns never returns more than was asked for, and leaves the buffer's size
  alone.
\<close>

lemma xorfs_read_backup_bounds_aux:
  assumes major: "xorfs_read_backup malloc depth fs source_file buffer offset sz = Some y"
  shows "int sz \<le> INT_MAX \<longrightarrow> sz \<le> length buffer \<longrightarrow>
           fst y \<le> int sz \<and> length (fst (snd y)) = length buffer"
proof (rule xorfs_read_backup.raw_induct
    [where P = "\<lambda>malloc depth fs source_file buffer offset sz y.
       int sz \<le> INT_MAX \<longrightarrow> sz \<le> length buffer \<longrightarrow>
         fst y \<le> int sz \<and> length (fst (snd y)) = length buffer", OF _ major], goal_cases)
  case (1 read_backup malloc depth fs source_file buffer offset sz y)
  show ?case
  proof (intro impI)
  assume small: "int sz \<le> INT_MAX" and fits: "sz \<le> length buffer"
  note body = 1(2)
  from body have in_range: "source_file < length fs"
    by (simp split: if_splits)
  from body in_range obtain r buffer1 source_file1
    where plain: "xorfs_read_plain (fs ! source_file) buffer offset sz = Some (r, buffer1, source_file1)"
    by (auto simp: bind_eq_Some_conv)
  note b1 = xorfs_read_plain_bounds [OF plain fits]
  show "fst y \<le> int sz \<and> length (fst (snd y)) = length buffer"
  proof (cases "r < 0 \<or> xor_against_number (backup (fs ! source_file)) = 0 \<or> malloc depth = None")
    case True
    then show ?thesis
      using body in_range plain b1
      by (auto simp: Let_def ENOMEM_def split: if_splits)
  next
    case False
    then obtain uninitialised where m: "malloc depth = Some uninitialised" by auto
    from False have r: "0 \<le> r" and delta: "xor_against_number (backup (fs ! source_file)) \<noteq> 0"
      by auto
    from body in_range plain r delta m obtain xor_against
      where link: "xor_against_source_file (backup (fs ! source_file)) = Some xor_against"
      by (cases "xor_against_source_file (backup (fs ! source_file))") (auto simp: Let_def)
    let ?rec = "read_backup malloc (Suc depth) (fs[source_file := source_file1]) xor_against
                  (map uninitialised [0..<sz]) offset (nat r)"
    from body in_range plain r delta m link obtain r2 second_buffer fs2
      where rec: "?rec = Some (r2, second_buffer, fs2)"
      by (auto simp: Let_def bind_eq_Some_conv)
    have "int (nat r) \<le> INT_MAX" "nat r \<le> length (map uninitialised [0..<sz])"
      using r b1(1) small by simp_all
    with 1(1) [OF rec] have second: "length second_buffer = sz" by simp
    have rest: "(if r2 < 0 then Some (r2, buffer1, fs2)
                 else if r2 \<noteq> r then Some (- EIO, buffer1, fs2)
                 else xor_buffers sz buffer1 second_buffer \<bind> (\<lambda>combined. Some (r, combined, fs2)))
                = Some y"
      using body in_range plain r delta m link rec by (simp add: Let_def)
    show ?thesis
    proof (cases "r2 < 0 \<or> r2 \<noteq> r")
      case True
      then show ?thesis using rest b1 by (auto simp: EIO_def split: if_splits)
    next
      case False
      then obtain combined where c: "xor_buffers sz buffer1 second_buffer = Some combined"
        and y: "y = (r, combined, fs2)"
        using rest by (auto simp: bind_eq_Some_conv)
      have "length combined = length buffer1"
        using c small fits b1(2) second by (intro xor_buffers_length [OF c]) simp_all
      then show ?thesis using y b1 by simp
    qed
  qed
qed
qed

lemma xorfs_read_backup_bounds:
  assumes "xorfs_read_backup malloc depth fs source_file buffer offset sz = Some (r, buffer', fs')"
    and "int sz \<le> INT_MAX" and "sz \<le> length buffer"
  shows "r \<le> int sz" and "length buffer' = length buffer"
  using xorfs_read_backup_bounds_aux [OF assms(1)] assms(2,3) by simp_all

lemma xorfs_read_backup_plain_image:
  assumes "source_file < length fs"
    and "xorfs_read_plain (fs ! source_file) buffer offset sz = Some (n, buffer1, source_file1)"
    and "xor_against_number (backup (fs ! source_file)) = 0"
  shows "xorfs_read_backup malloc depth fs source_file buffer offset sz
           = Some (n, buffer1, fs[source_file := source_file1])"
  using assms by (subst xorfs_read_backup.simps) (simp add: Let_def)

lemma take_xor_position_wise:
  assumes "k \<le> sz" "sz \<le> length a" "sz \<le> length b"
  shows "take k (xor_position_wise sz a b) = map2 (XOR) (take k a) (take k b)"
proof -
  have "take k (xor_position_wise sz a b) = take k (map2 (XOR) (take sz a) (take sz b))"
    using assms by (simp add: xor_position_wise_def)
  also have "\<dots> = map2 (XOR) (take k (take sz a)) (take k (take sz b))"
    by (simp add: take_map take_zip)
  also have "\<dots> = map2 (XOR) (take k a) (take k b)"
    using assms(1) by (simp add: min_def)
  finally show ?thesis .
qed

lemma xorfs_read_backup_xored_image:
  assumes in_range: "source_file < length fs"
    and own: "xorfs_read_plain (fs ! source_file) buffer offset sz = Some (n, buffer1, source_file1)"
    and n: "0 \<le> n"
    and delta: "xor_against_number (backup (fs ! source_file)) \<noteq> 0"
    and link: "xor_against_source_file (backup (fs ! source_file)) = Some xor_against"
    and m: "malloc depth = Some uninitialised"
    and rec: "xorfs_read_backup malloc (Suc depth) (fs[source_file := source_file1]) xor_against
                (map uninitialised [0..<sz]) offset (nat n) = Some (r, second_buffer, fs2)"
    and small: "int sz \<le> INT_MAX" and fits: "sz \<le> length buffer"
  shows "r \<le> n"
    and "n \<le> int sz"
    and "length buffer1 = length buffer"
    and "length second_buffer = sz"
    and "xorfs_read_backup malloc depth fs source_file buffer offset sz =
           (if r < 0 then Some (r, buffer1, fs2)
            else if r < n then Some (- EIO, buffer1, fs2)
            else Some (n, xor_position_wise sz buffer1 second_buffer, fs2))"
proof -
  note b1 = xorfs_read_plain_bounds [OF own fits]
  show "n \<le> int sz" and "length buffer1 = length buffer" by (rule b1)+
  have "int (nat n) \<le> INT_MAX" and "nat n \<le> length (map uninitialised [0..<sz])"
    using n b1(1) small by simp_all
  note b2 = xorfs_read_backup_bounds [OF rec this]
  show "r \<le> n" using b2(1) n by simp
  show second: "length second_buffer = sz" using b2(2) by simp
  have xor: "xor_buffers sz buffer1 second_buffer
               = Some (xor_position_wise sz buffer1 second_buffer)"
    using small fits b1(2) second by (intro xor_buffers_position_wise) simp_all
  have "r \<noteq> n \<longleftrightarrow> r < n" using \<open>r \<le> n\<close> by auto
  then show "xorfs_read_backup malloc depth fs source_file buffer offset sz =
           (if r < 0 then Some (r, buffer1, fs2)
            else if r < n then Some (- EIO, buffer1, fs2)
            else Some (n, xor_position_wise sz buffer1 second_buffer, fs2))"
    using in_range own n delta link m rec xor
    by (subst xorfs_read_backup.simps) (simp add: Let_def)
qed

lemma xor_twice: "map2 (XOR) (map2 (XOR) B D) B = D" if "length B = length D"
  for B D :: "byte list"
  using that
proof (induction B D rule: list_induct2)
  case Nil
  show ?case by simp
next
  case (Cons b B d D)
  have "(b XOR d) XOR b = d"
    by (rule bit_eqI) (auto simp: bit_xor_iff)
  then show ?case using Cons.IH by simp
qed

text \<open>
  A source file that is xor-ed against itself: reading it calls for reading it, with the same
  offset, without end. The call does not return.
\<close>

lemma xorfs_read_backup_self_reference_aux:
  assumes major: "xorfs_read_backup malloc depth fs source_file buffer offset sz = Some y"
  shows "\<not> (source_file < length fs
            \<and> xor_against_number (backup (fs ! source_file)) \<noteq> 0
            \<and> xor_against_source_file (backup (fs ! source_file)) = Some source_file
            \<and> file_descriptor (fs ! source_file) \<noteq> None
            \<and> 0 \<le> offset \<and> int sz \<le> INT_MAX \<and> (\<forall>d. malloc d \<noteq> None))"
proof (rule xorfs_read_backup.raw_induct
    [where P = "\<lambda>malloc depth fs source_file buffer offset sz y.
       \<not> (source_file < length fs
            \<and> xor_against_number (backup (fs ! source_file)) \<noteq> 0
            \<and> xor_against_source_file (backup (fs ! source_file)) = Some source_file
            \<and> file_descriptor (fs ! source_file) \<noteq> None
            \<and> 0 \<le> offset \<and> int sz \<le> INT_MAX \<and> (\<forall>d. malloc d \<noteq> None))",
     OF _ major], goal_cases)
  case (1 read_backup malloc depth fs source_file buffer offset sz y)
  show ?case
  proof
    assume inv: "source_file < length fs
            \<and> xor_against_number (backup (fs ! source_file)) \<noteq> 0
            \<and> xor_against_source_file (backup (fs ! source_file)) = Some source_file
            \<and> file_descriptor (fs ! source_file) \<noteq> None
            \<and> 0 \<le> offset \<and> int sz \<le> INT_MAX \<and> (\<forall>d. malloc d \<noteq> None)"
    then obtain stream where stream: "file_descriptor (fs ! source_file) = Some stream"
      by auto
    from inv have "malloc depth \<noteq> None" by blast
    then obtain uninitialised where m: "malloc depth = Some uninitialised"
      by auto
    let ?data = "take sz (drop (nat offset) (content stream))"
    let ?source_file1 = "(fs ! source_file)\<lparr>file_descriptor :=
                            Some (stream\<lparr>pos := nat offset + length ?data\<rparr>)\<rparr>"
    have own: "xorfs_read_plain (fs ! source_file) buffer offset sz
                 = Some (int_of_size_t (length ?data), ?data @ drop (length ?data) buffer,
                         ?source_file1)"
      using inv by (intro xorfs_read_plain_Some [OF stream]) simp
    have small: "int sz \<le> INT_MAX" using inv by blast
    have "length ?data \<le> sz" by simp
    then have "int (length ?data) \<le> INT_MAX" using small by linarith
    then have count: "int_of_size_t (length ?data) = int (length ?data)"
      by (rule int_of_size_t_small)
    let ?fs1 = "fs[source_file := ?source_file1]"
    from 1(2) inv own count m obtain y' where
      rec: "read_backup malloc (Suc depth) ?fs1 source_file (map uninitialised [0..<sz]) offset
              (nat (int (length ?data))) = Some y'"
      by (auto simp: Let_def bind_eq_Some_conv)
    have "source_file < length ?fs1
            \<and> xor_against_number (backup (?fs1 ! source_file)) \<noteq> 0
            \<and> xor_against_source_file (backup (?fs1 ! source_file)) = Some source_file
            \<and> file_descriptor (?fs1 ! source_file) \<noteq> None
            \<and> 0 \<le> offset \<and> int (nat (int (length ?data))) \<le> INT_MAX
            \<and> (\<forall>d. malloc d \<noteq> None)"
      using inv \<open>int (length ?data) \<le> INT_MAX\<close> by simp
    with 1(1) [OF rec] show False by blast
  qed
qed

lemma xorfs_read_backup_self_reference:
  assumes "source_file < length fs"
    and "xor_against_number (backup (fs ! source_file)) \<noteq> 0"
    and "xor_against_source_file (backup (fs ! source_file)) = Some source_file"
    and "file_descriptor (fs ! source_file) \<noteq> None"
    and "0 \<le> offset" and "int sz \<le> INT_MAX" and "\<forall>d. malloc d \<noteq> None"
  shows "xorfs_read_backup malloc depth fs source_file buffer offset sz = None"
proof (cases "xorfs_read_backup malloc depth fs source_file buffer offset sz")
  case None
  then show ?thesis .
next
  case (Some y)
  from xorfs_read_backup_self_reference_aux [OF Some] assms show ?thesis by blast
qed

text \<open>
  Along pointers that end at a plain image, a read at an offset that is not negative returns,
  whatever the allocations deliver.
\<close>

lemma reaches_plain_image_update:
  assumes "reaches_plain_image k fs p"
    and "i < length fs" and "backup f = backup (fs ! i)" and "file_descriptor f \<noteq> None"
  shows "reaches_plain_image k (fs[i := f]) p"
  using assms(1)
proof (induction k arbitrary: p)
  case 0
  then show ?case using assms(2,3,4) by (cases "p = i") simp_all
next
  case (Suc k)
  have same: "backup (fs[i := f] ! p) = backup (fs ! p)"
    and stream: "file_descriptor (fs[i := f] ! p) \<noteq> None"
    using Suc.prems assms(2,3,4) by (cases "p = i"; simp)+
  show ?case
  proof (cases "xor_against_number (backup (fs ! p)) = 0")
    case True
    then show ?thesis using Suc.prems same stream by simp
  next
    case False
    then obtain q where q: "xor_against_source_file (backup (fs ! p)) = Some q"
      and "reaches_plain_image k fs q"
      using Suc.prems by (auto split: option.splits)
    then have "reaches_plain_image k (fs[i := f]) q" using Suc.IH by simp
    then show ?thesis using Suc.prems same stream q by simp
  qed
qed

lemma xorfs_read_backup_returns:
  assumes "reaches_plain_image k fs source_file"
    and "0 \<le> offset" and "int sz \<le> INT_MAX" and "sz \<le> length buffer"
  shows "\<exists>y. xorfs_read_backup malloc depth fs source_file buffer offset sz = Some y"
  using assms
proof (induction k arbitrary: fs source_file buffer sz depth)
  case 0
  then obtain stream where "file_descriptor (fs ! source_file) = Some stream" by auto
  from xorfs_read_plain_Some [OF this "0.prems"(2), of buffer sz] "0.prems"(1)
  show ?case by (subst xorfs_read_backup.simps) (simp add: Let_def)
next
  case (Suc k)
  have in_range: "source_file < length fs" using Suc.prems(1) by simp
  obtain stream where stream: "file_descriptor (fs ! source_file) = Some stream"
    using Suc.prems(1) by auto
  let ?data = "take sz (drop (nat offset) (content stream))"
  let ?buffer1 = "?data @ drop (length ?data) buffer"
  let ?source_file1 = "(fs ! source_file)\<lparr>file_descriptor :=
                          Some (stream\<lparr>pos := nat offset + length ?data\<rparr>)\<rparr>"
  have "length ?data \<le> sz" by simp
  then have small: "int (length ?data) \<le> INT_MAX" using Suc.prems(3) by linarith
  have own: "xorfs_read_plain (fs ! source_file) buffer offset sz
               = Some (int (length ?data), ?buffer1, ?source_file1)"
    using xorfs_read_plain_Some [OF stream Suc.prems(2), of buffer sz]
    by (simp only: int_of_size_t_small [OF small])
  show ?case
  proof (cases "xor_against_number (backup (fs ! source_file)) = 0")
    case True
    from xorfs_read_backup_plain_image [OF in_range own True] show ?thesis by simp
  next
    case delta: False
    then obtain p where p: "xor_against_source_file (backup (fs ! source_file)) = Some p"
      and reach: "reaches_plain_image k fs p"
      using Suc.prems(1) by (auto split: option.splits)
    show ?thesis
    proof (cases "malloc depth")
      case None
      then show ?thesis
        using in_range own delta by (subst xorfs_read_backup.simps) (simp add: Let_def)
    next
      case (Some uninitialised)
      let ?fs1 = "fs[source_file := ?source_file1]"
      let ?second = "map uninitialised [0..<sz]"
      have "reaches_plain_image k ?fs1 p"
        using reach in_range by (intro reaches_plain_image_update) simp_all
      moreover have "int (nat (int (length ?data))) \<le> INT_MAX"
        and "nat (int (length ?data)) \<le> length ?second"
        using small by simp_all
      ultimately obtain y where
        "xorfs_read_backup malloc (Suc depth) ?fs1 p ?second offset (nat (int (length ?data)))
           = Some y"
        using Suc.IH [of ?fs1 p "nat (int (length ?data))" ?second "Suc depth"] Suc.prems(2)
        by blast
      then obtain r second_buffer fs2 where rec:
        "xorfs_read_backup malloc (Suc depth) ?fs1 p ?second offset (nat (int (length ?data)))
           = Some (r, second_buffer, fs2)"
        by (cases y) auto
      from xorfs_read_backup_xored_image(5)
             [OF in_range own _ delta p Some rec Suc.prems(3,4)]
      show ?thesis by (simp split: if_splits)
    qed
  qed
qed


text \<open>
  Along pointers that end at a plain image, with every allocation succeeding,
  \<^verbatim>\<open>xorfs_read_backup\<close> returns what the read of the specification yields.
\<close>

lemma specified_read_failure:
  "specified_read k fs entry offset len = Inl failure \<Longrightarrow> failure = - EIO"
proof (induction k arbitrary: entry len)
  case 0
  then show ?case by simp
next
  case (Suc k)
  then show ?case
    by (auto simp: Let_def split: if_splits option.splits sum.splits)
qed

lemma specified_read_update:
  assumes "i < length fs" and "backup f = backup (fs ! i)"
    and "stored_bytes f = stored_bytes (fs ! i)"
  shows "specified_read k (fs[i := f]) entry offset len = specified_read k fs entry offset len"
proof (induction k arbitrary: entry len)
  case 0
  show ?case using assms by (cases "entry = i") simp_all
next
  case (Suc k)
  have same: "backup (fs[i := f] ! entry) = backup (fs ! entry)"
    "stored_bytes (fs[i := f] ! entry) = stored_bytes (fs ! entry)"
    using assms by (cases "entry = i"; simp)+
  show ?case
    unfolding specified_read.simps same Suc.IH ..
qed

lemma xorfs_read_backup_specified:
  assumes "reaches_plain_image k fs source_file"
    and "0 \<le> offset" and "int sz \<le> INT_MAX" and "sz \<le> length buffer"
    and "\<forall>d. malloc d \<noteq> None"
  shows "returns_as_specified (xorfs_read_backup malloc depth fs source_file buffer offset sz)
           (specified_read k fs source_file (nat offset) sz)"
  using assms(1,3,4)
proof (induction k arbitrary: fs source_file buffer sz depth)
  case 0
  then obtain stream where stream: "file_descriptor (fs ! source_file) = Some stream"
    and plain: "xor_against_number (backup (fs ! source_file)) = 0"
    and in_range: "source_file < length fs"
    by auto
  define data where "data = take sz (drop (nat offset) (content stream))"
  have "length data \<le> sz" by (simp add: data_def)
  then have small: "int (length data) \<le> INT_MAX" using "0.prems"(2) by linarith
  have own: "xorfs_read_plain (fs ! source_file) buffer offset sz
               = Some (int (length data), data @ drop (length data) buffer,
                   (fs ! source_file)\<lparr>file_descriptor :=
                      Some (stream\<lparr>pos := nat offset + length data\<rparr>)\<rparr>)"
    using xorfs_read_plain_Some [OF stream assms(2), of buffer sz]
    unfolding data_def [symmetric] by (simp only: int_of_size_t_small [OF small])
  have stored: "take sz (drop (nat offset) (stored_bytes (fs ! source_file))) = data"
    by (simp add: stored_bytes_def stream data_def)
  show ?case
    unfolding xorfs_read_backup_plain_image [OF in_range own plain] specified_read.simps stored
    by (simp add: returns_as_specified_def)
next
  case (Suc k)
  have in_range: "source_file < length fs" using Suc.prems(1) by simp
  obtain stream where stream: "file_descriptor (fs ! source_file) = Some stream"
    using Suc.prems(1) by auto
  define data where "data = take sz (drop (nat offset) (content stream))"
  let ?data = data
  let ?n = "length ?data"
  let ?buffer1 = "?data @ drop ?n buffer"
  let ?source_file1 = "(fs ! source_file)\<lparr>file_descriptor :=
                          Some (stream\<lparr>pos := nat offset + ?n\<rparr>)\<rparr>"
  have le: "?n \<le> sz" by (simp add: data_def)
  then have small: "int ?n \<le> INT_MAX" using Suc.prems(2) by linarith
  have own: "xorfs_read_plain (fs ! source_file) buffer offset sz
               = Some (int ?n, ?buffer1, ?source_file1)"
    using xorfs_read_plain_Some [OF stream assms(2), of buffer sz]
    unfolding data_def [symmetric] by (simp only: int_of_size_t_small [OF small])
  have stored: "take sz (drop (nat offset) (stored_bytes (fs ! source_file))) = ?data"
    by (simp add: stored_bytes_def stream data_def)
  show ?case
  proof (cases "xor_against_number (backup (fs ! source_file)) = 0")
    case True
    show ?thesis
      unfolding xorfs_read_backup_plain_image [OF in_range own True]
      using True by (simp add: returns_as_specified_def stored Let_def)
  next
    case delta: False
    then obtain p where p: "xor_against_source_file (backup (fs ! source_file)) = Some p"
      and reach: "reaches_plain_image k fs p"
      using Suc.prems(1) by (auto split: option.splits)
    obtain uninitialised where m: "malloc depth = Some uninitialised"
      using assms(5) by auto
    let ?fs1 = "fs[source_file := ?source_file1]"
    let ?second = "map uninitialised [0..<sz]"
    let ?rec = "xorfs_read_backup malloc (Suc depth) ?fs1 p ?second offset (nat (int ?n))"
    have reach1: "reaches_plain_image k ?fs1 p"
      using reach in_range by (intro reaches_plain_image_update) simp_all
    have "int (nat (int ?n)) \<le> INT_MAX" and "nat (int ?n) \<le> length ?second"
      using small le by simp_all
    from Suc.IH [OF reach1 this, of "Suc depth"]
    have "returns_as_specified ?rec (specified_read k ?fs1 p (nat offset) (nat (int ?n)))" .
    moreover have "specified_read k ?fs1 p (nat offset) (nat (int ?n))
                     = specified_read k fs p (nat offset) ?n"
      using in_range by (simp add: specified_read_update stored_bytes_def stream)
    ultimately have spec: "returns_as_specified ?rec (specified_read k fs p (nat offset) ?n)"
      by simp
    then obtain r second_buffer fs2 where rec: "?rec = Some (r, second_buffer, fs2)"
      by (auto simp: returns_as_specified_def split: option.splits)
    note facts = xorfs_read_backup_xored_image [OF in_range own _ delta p m rec Suc.prems(2,3)]
    have top: "specified_read (Suc k) fs source_file (nat offset) sz =
        (case specified_read k fs p (nat offset) ?n of
           Inl failure \<Rightarrow> Inl failure
         | Inr predecessor_bytes \<Rightarrow>
             if length predecessor_bytes < ?n then Inl (- EIO)
             else Inr (map2 (XOR) ?data predecessor_bytes))"
      using delta p by (simp add: stored Let_def)
    show ?thesis
    proof (cases "specified_read k fs p (nat offset) ?n")
      case (Inl failure)
      then have "failure = - EIO" by (rule specified_read_failure)
      moreover have "r = failure"
        using spec rec Inl by (simp add: returns_as_specified_def)
      ultimately have "xorfs_read_backup malloc depth fs source_file buffer offset sz
                         = Some (failure, ?buffer1, fs2)"
        using facts(5) by (simp add: EIO_def)
      then show ?thesis
        unfolding top Inl by (simp add: returns_as_specified_def)
    next
      case (Inr predecessor_bytes)
      have r: "r = int (length predecessor_bytes)"
        and front: "take (length predecessor_bytes) second_buffer = predecessor_bytes"
        using spec rec Inr by (simp_all add: returns_as_specified_def)
      show ?thesis
      proof (cases "length predecessor_bytes < ?n")
        case True
        then have "xorfs_read_backup malloc depth fs source_file buffer offset sz
                     = Some (- EIO, ?buffer1, fs2)"
          using facts(5) r by simp
        then show ?thesis
          unfolding top Inr using True by (simp add: returns_as_specified_def)
      next
        case False
        then have same: "length predecessor_bytes = ?n" using facts(1) r by simp
        have result: "xorfs_read_backup malloc depth fs source_file buffer offset sz
                 = Some (int ?n, xor_position_wise sz ?buffer1 second_buffer, fs2)"
          using facts(5) r same by simp
        have "take ?n (xor_position_wise sz ?buffer1 second_buffer)
                = map2 (XOR) (take ?n ?buffer1) (take ?n second_buffer)"
          using le facts(3,4) Suc.prems(3) by (intro take_xor_position_wise) simp_all
        also have "take ?n ?buffer1 = ?data" by simp
        also have "take ?n second_buffer = predecessor_bytes" using front same by simp
        finally have xored: "take ?n (xor_position_wise sz ?buffer1 second_buffer)
                               = map2 (XOR) ?data predecessor_bytes" .
        have "length (map2 (XOR) ?data predecessor_bytes) = ?n" using same by simp
        then show ?thesis
          unfolding top Inr result using False xored
          by (simp add: returns_as_specified_def)
      qed
    qed
  qed
qed
subsection \<open>Opening the source files\<close>

lemma close_files_loop_streams_of:
  "close_files_loop fs (streams_of fs @ others) = others"
proof (induction fs arbitrary: others)
  case Nil
  show ?case by (simp add: streams_of_def)
next
  case (Cons source_file fs)
  have "streams_of (source_file # fs) =
          (case file_descriptor source_file of None \<Rightarrow> [] | Some stream \<Rightarrow> [fileno stream])
            @ streams_of fs"
    by (simp add: streams_of_def)
  then show ?case using Cons.IH [of others] by (cases "file_descriptor source_file") simp_all
qed

lemma xorfs_close_source_files_closes_all:
  assumes "open_streams g = streams_of (files g)"
  shows "open_streams (xorfs_close_source_files g) = []"
    and "files_freed (xorfs_close_source_files g)"
    and "files (xorfs_close_source_files g) = files g"
  using assms close_files_loop_streams_of [of "files g" "[]"]
  by (simp_all add: xorfs_close_source_files_def)

lemma streams_of_append: "streams_of (fs @ gs) = streams_of fs @ streams_of gs"
  by (simp add: streams_of_def)

lemma open_source_file_skips:
  assumes "\<not> is_source_file entry"
  shows "open_source_file alloc g entry = Some (Inr g)"
  using assms by (auto simp: open_source_file_def is_source_file_def Let_def)

lemma open_source_file_Inr:
  assumes "open_source_file alloc g entry = Some (Inr g')" and "is_source_file entry"
  shows "\<exists>st backup_info.
           fstat (snd entry) = Some st
           \<and> get_backup_information alloc (length (files g)) (d_name (fst entry)) (st_mtime st)
               = Some (Inr backup_info)
           \<and> g' = g\<lparr>files := files g @
                 [\<lparr>file_name = d_name (fst entry),
                   file_descriptor =
                     Some \<lparr>fileno = length (files g), content = bytes (snd entry), pos = 0\<rparr>,
                   stat = st, backup = backup_info\<rparr>],
               open_streams := open_streams g @ [length (files g)]\<rparr>"
  using assms
  by (simp add: open_source_file_def is_source_file_def Let_def
      split: if_splits option.splits sum.splits)

lemma open_source_file_Inl:
  assumes "open_source_file alloc g entry = Some (Inl (return_value, g'))"
    and "open_streams g = streams_of (files g)"
  shows "open_streams g' = streams_of (files g')" and "return_value \<noteq> 0"
proof -
  have source: "is_source_file entry"
    using assms(1) open_source_file_skips [of entry alloc g] by auto
  have get: "return_value \<noteq> 0"
    if "get_backup_information alloc index fname mtime = Some (Inl return_value)"
    for index fname mtime
    using that
    by (auto simp: get_backup_information_def Let_def
        split: option.splits if_splits prod.splits)
  have "g' = g \<or> g' = g\<lparr>files := files g @ [safe_filled]\<rparr>
      \<or> g' = g\<lparr>files := files g @ [safe_filled\<lparr>file_descriptor :=
                  Some \<lparr>fileno = length (files g), content = bytes (snd entry), pos = 0\<rparr>\<rparr>],
              open_streams := open_streams g @ [length (files g)]\<rparr>"
    using assms(1)
    by (simp add: open_source_file_def Let_def split: if_splits option.splits sum.splits)
  then show "open_streams g' = streams_of (files g')"
    using assms(2) by (auto simp: streams_of_append) (simp_all add: streams_of_def safe_filled_def)
  show "return_value \<noteq> 0"
    using assms(1) get
    by (auto simp: open_source_file_def Let_def split: if_splits option.splits sum.splits)
qed

subsection \<open>The parser of file names\<close>

lemma find_first_number_Some_aux:
  "find_first_number s offset = Some k \<Longrightarrow>
     k = offset + length (takeWhile (\<lambda>c. \<not> is_digit c) s)
     \<and> dropWhile (\<lambda>c. \<not> is_digit c) s \<noteq> []"
proof (induction s arbitrary: offset)
  case Nil
  then show ?case by simp
next
  case (Cons c s)
  show ?case
  proof (cases "is_digit c")
    case True
    then show ?thesis using Cons.prems by simp
  next
    case False
    then have "find_first_number s (offset + 1) = Some k"
      using Cons.prems by (simp split: if_splits)
    from Cons.IH [OF this] show ?thesis using False by simp
  qed
qed

lemma find_first_number_Some:
  assumes "find_first_number s offset = Some k"
  shows "k = offset + length (takeWhile (\<lambda>c. \<not> is_digit c) s)"
    and "dropWhile (\<lambda>c. \<not> is_digit c) s \<noteq> []"
  using find_first_number_Some_aux [OF assms] by simp_all

lemma is_digit_no_space_no_sign:
  assumes "is_digit c"
  shows "\<not> isspace c" and "c \<noteq> CHR ''-''" and "c \<noteq> CHR ''+''"
  using assms by (auto simp: is_digit_def isspace_def)

lemma strtol_at_digit:
  assumes "s \<noteq> []" and "is_digit (hd s)"
  shows "fst (snd (strtol s)) = dropWhile is_digit s"
proof -
  obtain c rest where s: "s = c # rest" using assms(1) by (cases s) auto
  then have c: "is_digit c" using assms(2) by simp
  note c' = is_digit_no_space_no_sign [OF c]
  show ?thesis
    using c c' by (simp add: s strtol_def Let_def)
qed

lemma take_name_and_number_part:
  "take (length fname - length (dropWhile is_digit (dropWhile (\<lambda>c. \<not> is_digit c) fname))) fname
     = name_and_number_part fname"
proof -
  let ?a = "takeWhile (\<lambda>c. \<not> is_digit c) fname"
  let ?rest = "dropWhile (\<lambda>c. \<not> is_digit c) fname"
  let ?b = "takeWhile is_digit ?rest"
  let ?c = "dropWhile is_digit ?rest"
  have split: "fname = (?a @ ?b) @ ?c"
    by (simp only: append_assoc takeWhile_dropWhile_id)
  have "length fname - length ?c = length (?a @ ?b)"
    by (subst split) (simp only: length_append add_diff_cancel_right')
  moreover have "take (length (?a @ ?b)) fname = ?a @ ?b"
    by (subst split) (rule append_eq_conv_conj [THEN iffD1, THEN conjunct1, symmetric], rule refl)
  ultimately show ?thesis by (simp only: name_and_number_part_def)
qed

lemma get_backup_information_Inr:
  assumes "get_backup_information alloc index fname mtime = Some (Inr backup_info)"
  shows "output_file_name backup_info = name_and_number_part fname @ ''.dat''"
    and "name backup_info = butlast (takeWhile (\<lambda>c. \<not> is_digit c) fname)"
    and "xor_against_source_file backup_info = None"
    and "time backup_info = mtime"
proof -
  from assms obtain k where k: "find_first_number fname 0 = Some k"
    by (cases "find_first_number fname 0") (auto simp: get_backup_information_def)
  note first = find_first_number_Some [OF k]
  let ?rest = "dropWhile (\<lambda>c. \<not> is_digit c) fname"
  have rest: "drop k fname = ?rest"
    using first(1) by (simp add: dropWhile_eq_drop)
  have "is_digit (hd ?rest)" using first(2) hd_dropWhile [of "\<lambda>c. \<not> is_digit c" fname] by simp
  then have end1: "fst (snd (strtol (drop k fname))) = dropWhile is_digit ?rest"
    using first(2) by (simp add: rest strtol_at_digit)
  obtain v1 e1 where s1: "strtol (drop k fname) = (v1, dropWhile is_digit ?rest, e1)"
    using end1 by (cases "strtol (drop k fname)") auto
  have pos: "k \<noteq> 0" and alloc1: "alloc index Malloc_backup_name"
    using assms k by (auto simp: get_backup_information_def split: if_splits)
  have fields: "output_file_name backup_info
        = take (length fname - length (dropWhile is_digit ?rest)) fname @ ''.dat''
      \<and> name backup_info = take (k - 1) fname
      \<and> xor_against_source_file backup_info = None \<and> time backup_info = mtime"
  proof -
    let ?xOrDot = "dropWhile is_digit ?rest"
    obtain v2 dot e2 where s2: "strtol (tl ?xOrDot) = (v2, dot, e2)"
      by (cases "strtol (tl ?xOrDot)") auto
    have "get_backup_information alloc index fname mtime =
      (let finish = (\<lambda>xor_against dot.
              if deref dot \<noteq> CHR ''.'' then Some (Inl 5)
              else if \<not> alloc index Strdup_output_file_name then Some (Inl 5)
              else Some (Inr
                \<lparr>name = take (k - 1) fname,
                 number = word_of_int v1,
                 xor_against_number = xor_against,
                 xor_against_source_file = None,
                 time = mtime,
                 output_file_name = take (length fname - length ?xOrDot) fname @ ''.dat''\<rparr>))
       in if deref ?xOrDot = CHR ''x''
          then (if e2 then Some (Inl 5) else finish (word_of_int v2) dot)
          else if deref ?xOrDot = CHR ''.'' then finish 0 ?xOrDot
          else Some (Inl 5))"
      using k pos alloc1 by (simp add: get_backup_information_def s1 s2)
    then show ?thesis
      using assms by (simp add: Let_def split: if_splits)
  qed
  show "output_file_name backup_info = name_and_number_part fname @ ''.dat''"
    using fields by (simp only: take_name_and_number_part)
  have "take (k - 1) fname = butlast (takeWhile (\<lambda>c. \<not> is_digit c) fname)"
  proof -
    let ?a = "takeWhile (\<lambda>c. \<not> is_digit c) fname"
    have "take (k - 1) fname = take (k - 1) (?a @ ?rest)"
      by (simp only: takeWhile_dropWhile_id)
    also have "\<dots> = take (length ?a - 1) ?a"
      using first(1) by (simp only: take_append) simp
    also have "\<dots> = butlast ?a"
      by (simp only: butlast_conv_take)
    finally show ?thesis .
  qed
  then show "name backup_info = butlast (takeWhile (\<lambda>c. \<not> is_digit c) fname)"
    using fields by simp
  show "xor_against_source_file backup_info = None" "time backup_info = mtime"
    using fields by simp_all
qed

subsection \<open>The link check\<close>

lemma forget_link_fields:
  assumes "forget_link a = forget_link b"
  shows "file_name a = file_name b" and "file_descriptor a = file_descriptor b"
    and "name (backup a) = name (backup b)" and "number (backup a) = number (backup b)"
    and "xor_against_number (backup a) = xor_against_number (backup b)"
    and "output_file_name (backup a) = output_file_name (backup b)"
proof -
  have "file_name (forget_link a) = file_name (forget_link b)"
    and "file_descriptor (forget_link a) = file_descriptor (forget_link b)"
    and "backup (forget_link a) = backup (forget_link b)"
    using assms by simp_all
  then have top: "file_name a = file_name b" "file_descriptor a = file_descriptor b"
    and inner: "(backup a)\<lparr>xor_against_source_file := None\<rparr>
                  = (backup b)\<lparr>xor_against_source_file := None\<rparr>"
    by (simp_all add: forget_link_def)
  show "file_name a = file_name b" "file_descriptor a = file_descriptor b" by (rule top)+
  have "name ((backup a)\<lparr>xor_against_source_file := None\<rparr>)
          = name ((backup b)\<lparr>xor_against_source_file := None\<rparr>)"
    and "number ((backup a)\<lparr>xor_against_source_file := None\<rparr>)
          = number ((backup b)\<lparr>xor_against_source_file := None\<rparr>)"
    and "xor_against_number ((backup a)\<lparr>xor_against_source_file := None\<rparr>)
          = xor_against_number ((backup b)\<lparr>xor_against_source_file := None\<rparr>)"
    and "output_file_name ((backup a)\<lparr>xor_against_source_file := None\<rparr>)
          = output_file_name ((backup b)\<lparr>xor_against_source_file := None\<rparr>)"
    using inner by simp_all
  then show "name (backup a) = name (backup b)" "number (backup a) = number (backup b)"
    "xor_against_number (backup a) = xor_against_number (backup b)"
    "output_file_name (backup a) = output_file_name (backup b)"
    by simp_all
qed

lemma map_forget_link_nth:
  assumes "map forget_link fs' = map forget_link fs"
  shows "length fs' = length fs"
    and "i < length fs \<Longrightarrow> forget_link (fs' ! i) = forget_link (fs ! i)"
proof -
  show len: "length fs' = length fs" using assms by (rule map_eq_imp_length_eq)
  show "forget_link (fs' ! i) = forget_link (fs ! i)" if "i < length fs"
    using that len nth_map [of i fs' forget_link] nth_map [of i fs forget_link] assms by simp
qed

lemma get_source_file_by_backup_name_and_number_None:
  "get_source_file_by_backup_name_and_number fs requested_name requested_number = None \<longleftrightarrow>
     (\<forall>j < length fs. \<not> (number (backup (fs ! j)) = requested_number
                           \<and> name (backup (fs ! j)) = requested_name))"
  by (simp add: get_source_file_by_backup_name_and_number_def
      source_file_by_backup_name_and_number_from_None)

lemma get_source_file_by_backup_name_and_number_Some:
  "get_source_file_by_backup_name_and_number fs requested_name requested_number = Some i \<longleftrightarrow>
     i < length fs
     \<and> (number (backup (fs ! i)) = requested_number \<and> name (backup (fs ! i)) = requested_name)
     \<and> (\<forall>j < i. \<not> (number (backup (fs ! j)) = requested_number
                     \<and> name (backup (fs ! j)) = requested_name))"
  by (simp add: get_source_file_by_backup_name_and_number_def
      source_file_by_backup_name_and_number_from_Some)

lemma get_source_file_by_backup_name_and_number_cong:
  assumes "map forget_link fs' = map forget_link fs"
  shows "get_source_file_by_backup_name_and_number fs' requested_name requested_number
           = get_source_file_by_backup_name_and_number fs requested_name requested_number"
proof -
  note same = map_forget_link_nth [OF assms]
  have keys: "number (backup (fs' ! i)) = number (backup (fs ! i))
              \<and> name (backup (fs' ! i)) = name (backup (fs ! i))" if "i < length fs" for i
    using forget_link_fields(3,4) [OF same(2) [OF that]] by simp
  show ?thesis
  proof (cases "get_source_file_by_backup_name_and_number fs requested_name requested_number")
    case None
    then have "get_source_file_by_backup_name_and_number fs' requested_name requested_number = None"
      unfolding get_source_file_by_backup_name_and_number_None using keys same(1) by simp
    then show ?thesis using None by simp
  next
    case (Some i)
    then have "get_source_file_by_backup_name_and_number fs' requested_name requested_number = Some i"
      unfolding get_source_file_by_backup_name_and_number_Some using keys same(1) by auto
    then show ?thesis using Some by simp
  qed
qed

lemma unresolved_iff:
  "unresolved fs index \<longleftrightarrow> xor_against_number (backup (fs ! index)) \<noteq> 0
     \<and> resolved_link fs (fs ! index) = None"
  by (simp add: unresolved_def resolved_link_def get_source_file_by_backup_name_and_number_None)

lemma resolved_link_cong:
  assumes "map forget_link fs' = map forget_link fs" and "forget_link a = forget_link b"
  shows "resolved_link fs' a = resolved_link fs b"
  using get_source_file_by_backup_name_and_number_cong [OF assms(1)]
    forget_link_fields(3,5) [OF assms(2)]
  by (simp add: resolved_link_def)

lemma unresolved_cong:
  assumes "map forget_link fs' = map forget_link fs" and "index < length fs"
  shows "unresolved fs' index \<longleftrightarrow> unresolved fs index"
  using resolved_link_cong [OF assms(1) map_forget_link_nth(2) [OF assms]]
    forget_link_fields(5) [OF map_forget_link_nth(2) [OF assms]]
  by (simp add: unresolved_iff)

lemma same_but_links_refl: "same_but_links g g"
  by (simp add: same_but_links_def)

lemma same_but_links_trans:
  "same_but_links g g1 \<Longrightarrow> same_but_links g1 g2 \<Longrightarrow> same_but_links g g2"
  by (simp add: same_but_links_def)

lemma set_xor_against_source_file_same:
  assumes "index < length (files g)"
  shows "same_but_links g (set_xor_against_source_file g index p)"
    and "files (set_xor_against_source_file g index p) ! index
           = (files g ! index)\<lparr>backup := (backup (files g ! index))\<lparr>xor_against_source_file := p\<rparr>\<rparr>"
    and "i \<noteq> index \<Longrightarrow> files (set_xor_against_source_file g index p) ! i = files g ! i"
proof -
  let ?f = "(files g ! index)\<lparr>backup := (backup (files g ! index))\<lparr>xor_against_source_file := p\<rparr>\<rparr>"
  have "forget_link ?f = forget_link (files g ! index)"
    by (simp add: forget_link_def)
  then have "map forget_link ((files g)[index := ?f]) = map forget_link (files g)"
    using assms by (simp add: map_update list_update_same_conv)
  then show "same_but_links g (set_xor_against_source_file g index p)"
    by (simp add: same_but_links_def set_xor_against_source_file_def)
  show "files (set_xor_against_source_file g index p) ! index = ?f"
    using assms by (simp add: set_xor_against_source_file_def)
  show "files (set_xor_against_source_file g index p) ! i = files g ! i" if "i \<noteq> index"
    using that by (simp add: set_xor_against_source_file_def)
qed

declare check_backup_links.simps [simp del]

text \<open>
  What the link check does from \<open>index\<close> on: it fails with 6 at the first unresolved entry,
  and otherwise sets every pointer to the entry that the lookup finds. Nothing else changes.
\<close>

lemma check_backup_links_result:
  "(case check_backup_links g index of
      Inl (return_value, g') \<Rightarrow>
        return_value = 6 \<and> same_but_links g g'
        \<and> (\<exists>i. index \<le> i \<and> i < length (files g) \<and> unresolved (files g) i)
    | Inr g' \<Rightarrow>
        same_but_links g g'
        \<and> (\<forall>i. index \<le> i \<and> i < length (files g) \<longrightarrow>
              \<not> unresolved (files g) i
              \<and> xor_against_source_file (backup (files g' ! i))
                  = resolved_link (files g) (files g ! i))
        \<and> (\<forall>i < index. files g' ! i = files g ! i))"
proof (induction g index rule: check_backup_links.induct)
  case (1 g index)
  show ?case
  proof (cases "index < length (files g)")
    case False
    then show ?thesis
      by (subst check_backup_links.simps) (auto simp: same_but_links_refl)
  next
    case in_range: True
    let ?f = "files g ! index"
    define p where "p = resolved_link (files g) ?f"
    show ?thesis
    proof (cases "xor_against_number (backup ?f) \<noteq> 0 \<and> p = None")
      case True
      then have "check_backup_links g index = Inl (6, g)"
        using in_range
        by (subst check_backup_links.simps) (auto simp: p_def resolved_link_def)
      moreover have "unresolved (files g) index"
        using True by (simp add: unresolved_iff p_def)
      ultimately show ?thesis using in_range by (auto simp: same_but_links_refl)
    next
      case False
      let ?g1 = "set_xor_against_source_file g index p"
      note set = set_xor_against_source_file_same [OF in_range, where p = p]
      have step: "check_backup_links g index = check_backup_links ?g1 (index + 1)"
        using in_range False
        by (subst check_backup_links.simps)
          (auto simp: p_def resolved_link_def split: option.splits)
      have IH: "(case check_backup_links ?g1 (index + 1) of
          Inl (return_value, g') \<Rightarrow>
            return_value = 6 \<and> same_but_links ?g1 g'
            \<and> (\<exists>i. index + 1 \<le> i \<and> i < length (files ?g1) \<and> unresolved (files ?g1) i)
        | Inr g' \<Rightarrow>
            same_but_links ?g1 g'
            \<and> (\<forall>i. index + 1 \<le> i \<and> i < length (files ?g1) \<longrightarrow>
                  \<not> unresolved (files ?g1) i
                  \<and> xor_against_source_file (backup (files g' ! i))
                      = resolved_link (files ?g1) (files ?g1 ! i))
            \<and> (\<forall>i < index + 1. files g' ! i = files ?g1 ! i))"
      proof (cases "xor_against_number (backup ?f) = 0")
        case True
        then have none: "p = None" by (simp add: p_def resolved_link_def)
        show ?thesis unfolding none by (rule "1.IH"(1) [OF in_range True])
      next
        case nonzero: False
        then obtain q where q: "p = Some q" using False by auto
        then have "get_source_file_by_backup_name_and_number (files g) (name (backup ?f))
                     (xor_against_number (backup ?f)) = Some q"
          using nonzero by (simp add: p_def resolved_link_def)
        then show ?thesis unfolding q by (rule "1.IH"(2) [OF in_range nonzero])
      qed
      have maps: "map forget_link (files ?g1) = map forget_link (files g)"
        using set(1) by (simp add: same_but_links_def)
      have len: "length (files ?g1) = length (files g)"
        using map_forget_link_nth(1) [OF maps] .
      have unres: "unresolved (files ?g1) i \<longleftrightarrow> unresolved (files g) i"
        if "i < length (files g)" for i
        using unresolved_cong [OF maps that] .
      have link: "resolved_link (files ?g1) (files ?g1 ! i) = resolved_link (files g) (files g ! i)"
        if "i < length (files g)" for i
        using resolved_link_cong [OF maps map_forget_link_nth(2) [OF maps that]] .
      have here: "\<not> unresolved (files g) index"
        using False by (auto simp: unresolved_iff p_def)
      have here_link: "xor_against_source_file (backup (files ?g1 ! index)) = p"
        by (simp add: set(2))
      show ?thesis
      proof (cases "check_backup_links ?g1 (index + 1)")
        case (Inl failure)
        obtain return_value g' where failure: "failure = (return_value, g')"
          by (cases failure) auto
        have "return_value = 6" and "same_but_links ?g1 g'"
          and "\<exists>i. index + 1 \<le> i \<and> i < length (files ?g1) \<and> unresolved (files ?g1) i"
          using IH [unfolded Inl failure] by simp_all
        then obtain i where rv: "return_value = 6" and same: "same_but_links ?g1 g'"
          and i: "index + 1 \<le> i" "i < length (files ?g1)" "unresolved (files ?g1) i"
          by blast
        have "index \<le> i \<and> i < length (files g) \<and> unresolved (files g) i"
          using i len unres [of i] by simp
        then have "\<exists>i. index \<le> i \<and> i < length (files g) \<and> unresolved (files g) i" ..
        then show ?thesis
          using rv same_but_links_trans [OF set(1) same] unfolding step Inl failure by simp
      next
        case (Inr g')
        have a: "same_but_links ?g1 g'"
          and b: "\<And>i. index + 1 \<le> i \<Longrightarrow> i < length (files ?g1) \<Longrightarrow>
                \<not> unresolved (files ?g1) i
                \<and> xor_against_source_file (backup (files g' ! i))
                    = resolved_link (files ?g1) (files ?g1 ! i)"
          and c: "\<And>i. i < index + 1 \<Longrightarrow> files g' ! i = files ?g1 ! i"
          using IH [unfolded Inr] by simp_all
        have "same_but_links g g'" using same_but_links_trans [OF set(1) a] .
        moreover have "\<not> unresolved (files g) i
              \<and> xor_against_source_file (backup (files g' ! i))
                  = resolved_link (files g) (files g ! i)"
          if "index \<le> i" "i < length (files g)" for i
        proof (cases "i = index")
          case True
          then show ?thesis using here here_link c [of index] by (simp add: p_def)
        next
          case False
          then have "index + 1 \<le> i" using that(1) by simp
          from b [OF this] that(2) show ?thesis by (simp add: len unres link)
        qed
        moreover have "files g' ! i = files g ! i" if "i < index" for i
          using c [of i] that set(3) [of i] by simp
        ultimately show ?thesis unfolding step Inr by simp
      qed
    qed
  qed
qed

lemma check_backup_links_Inr:
  assumes "check_backup_links g 0 = Inr g'"
  shows "same_but_links g g'"
    and "i < length (files g) \<Longrightarrow> \<not> unresolved (files g) i"
    and "i < length (files g) \<Longrightarrow>
           xor_against_source_file (backup (files g' ! i)) = resolved_link (files g) (files g ! i)"
  using check_backup_links_result [of g 0] assms by simp_all

lemma check_backup_links_Inl:
  assumes "check_backup_links g 0 = Inl (return_value, g')"
  shows "return_value = 6" and "same_but_links g g'"
    and "\<exists>i < length (files g). unresolved (files g) i"
  using check_backup_links_result [of g 0] assms by auto

lemma check_backup_links_fails:
  assumes "i < length (files g)" and "unresolved (files g) i"
  shows "\<exists>g'. check_backup_links g 0 = Inl (6, g') \<and> same_but_links g g'"
proof (cases "check_backup_links g 0")
  case (Inl failure)
  obtain return_value g' where "failure = (return_value, g')" by (cases failure) auto
  then have "check_backup_links g 0 = Inl (return_value, g')" using Inl by simp
  from check_backup_links_Inl(1,2) [OF this] this show ?thesis by simp
next
  case (Inr g')
  then show ?thesis using check_backup_links_Inr(2) [OF Inr assms(1)] assms(2) by simp
qed

lemma check_backup_links_succeeds:
  assumes "\<forall>i < length (files g). \<not> unresolved (files g) i"
  shows "\<exists>g'. check_backup_links g 0 = Inr g'"
proof (cases "check_backup_links g 0")
  case (Inl failure)
  obtain return_value g' where "failure = (return_value, g')" by (cases failure) auto
  then have "check_backup_links g 0 = Inl (return_value, g')" using Inl by simp
  from check_backup_links_Inl(3) [OF this] assms show ?thesis by blast
next
  case (Inr g')
  then show ?thesis by simp
qed

subsection \<open>The loop over the directory\<close>

lemma open_source_file_step:
  assumes "open_source_file alloc g entry = Some (Inr g')"
  shows "map file_name (files g')
           = map file_name (files g) @ (if is_source_file entry then [d_name (fst entry)] else [])"
    and "open_streams g = streams_of (files g) \<Longrightarrow> open_streams g' = streams_of (files g')"
    and "files_freed g' = files_freed g"
    and "(\<forall>f \<in> set (files g).
            output_file_name (backup f) = name_and_number_part (file_name f) @ ''.dat'')
         \<Longrightarrow> (\<forall>f \<in> set (files g').
            output_file_name (backup f) = name_and_number_part (file_name f) @ ''.dat'')"
proof -
  have "\<exists>new. files g' = files g @ new
          \<and> open_streams g' = open_streams g @ streams_of new
          \<and> files_freed g' = files_freed g
          \<and> map file_name new = (if is_source_file entry then [d_name (fst entry)] else [])
          \<and> (\<forall>f \<in> set new.
                output_file_name (backup f) = name_and_number_part (file_name f) @ ''.dat'')"
  proof (cases "is_source_file entry")
    case False
    then have "g' = g" using assms open_source_file_skips [OF False, of alloc g] by simp
    then have "files g' = files g @ [] \<and> open_streams g' = open_streams g @ streams_of []
          \<and> files_freed g' = files_freed g
          \<and> map file_name [] = (if is_source_file entry then [d_name (fst entry)] else [])
          \<and> (\<forall>f \<in> set [].
                output_file_name (backup f) = name_and_number_part (file_name f) @ ''.dat'')"
      using False by (simp add: streams_of_def)
    then show ?thesis by (rule exI [where x = "[]"])
  next
    case True
    from open_source_file_Inr [OF assms True] obtain st backup_info where
      all: "fstat (snd entry) = Some st
        \<and> get_backup_information alloc (length (files g)) (d_name (fst entry)) (st_mtime st)
            = Some (Inr backup_info)
        \<and> g' = g\<lparr>files := files g @
                 [\<lparr>file_name = d_name (fst entry),
                   file_descriptor =
                     Some \<lparr>fileno = length (files g), content = bytes (snd entry), pos = 0\<rparr>,
                   stat = st, backup = backup_info\<rparr>],
               open_streams := open_streams g @ [length (files g)]\<rparr>"
      by (elim exE) (rule that)
    note parsed = all [THEN conjunct2, THEN conjunct1]
    note g' = all [THEN conjunct2, THEN conjunct2]
    let ?f = "\<lparr>file_name = d_name (fst entry),
               file_descriptor =
                 Some \<lparr>fileno = length (files g), content = bytes (snd entry), pos = 0\<rparr>,
               stat = st, backup = backup_info\<rparr>"
    have a: "files g' = files g @ [?f]" by (simp add: g')
    have b: "open_streams g' = open_streams g @ streams_of [?f]"
      by (simp add: g' streams_of_def)
    have c: "files_freed g' = files_freed g" by (simp add: g')
    have d: "map file_name [?f] = (if is_source_file entry then [d_name (fst entry)] else [])"
      using True by simp
    have "output_file_name (backup ?f) = name_and_number_part (file_name ?f) @ ''.dat''"
      using get_backup_information_Inr(1) [OF parsed] by simp
    then have e: "\<forall>f \<in> set [?f].
                output_file_name (backup f) = name_and_number_part (file_name f) @ ''.dat''"
      by simp
    from a b c d e show ?thesis by (intro exI [where x = "[?f]"] conjI)
  qed
  then obtain new where new: "files g' = files g @ new"
      "open_streams g' = open_streams g @ streams_of new"
      "files_freed g' = files_freed g"
      "map file_name new = (if is_source_file entry then [d_name (fst entry)] else [])"
      "\<forall>f \<in> set new.
         output_file_name (backup f) = name_and_number_part (file_name f) @ ''.dat''"
    by blast
  show "map file_name (files g')
          = map file_name (files g) @ (if is_source_file entry then [d_name (fst entry)] else [])"
    by (simp add: new(1,4))
  show "open_streams g' = streams_of (files g')" if "open_streams g = streams_of (files g)"
    using that by (simp add: new(1,2) streams_of_append)
  show "files_freed g' = files_freed g" by (rule new(3))
  show "\<forall>f \<in> set (files g').
          output_file_name (backup f) = name_and_number_part (file_name f) @ ''.dat''"
    if "\<forall>f \<in> set (files g).
          output_file_name (backup f) = name_and_number_part (file_name f) @ ''.dat''"
    using that new(5) by (auto simp: new(1))
qed

lemma open_source_files_loop_Inr:
  "open_source_files_loop alloc g entries = Some (Inr g') \<Longrightarrow>
     map file_name (files g')
       = map file_name (files g) @ map (\<lambda>entry. d_name (fst entry)) (filter is_source_file entries)
     \<and> (open_streams g = streams_of (files g) \<longrightarrow> open_streams g' = streams_of (files g'))
     \<and> files_freed g' = files_freed g
     \<and> ((\<forall>f \<in> set (files g).
            output_file_name (backup f) = name_and_number_part (file_name f) @ ''.dat'')
         \<longrightarrow> (\<forall>f \<in> set (files g').
            output_file_name (backup f) = name_and_number_part (file_name f) @ ''.dat''))"
proof (induction entries arbitrary: g)
  case Nil
  then show ?case by simp
next
  case (Cons entry entries)
  obtain g1 where one: "open_source_file alloc g entry = Some (Inr g1)"
    and rest: "open_source_files_loop alloc g1 entries = Some (Inr g')"
  proof (cases "open_source_file alloc g entry")
    case None
    then show ?thesis using Cons.prems by simp
  next
    case (Some outcome)
    show ?thesis
    proof (cases outcome)
      case (Inl failure)
      then show ?thesis using Some Cons.prems by simp
    next
      case (Inr g1)
      then show ?thesis using Some Cons.prems that [of g1] by simp
    qed
  qed
  note step = open_source_file_step [OF one]
  note IH = Cons.IH [OF rest]
  have names: "map file_name (files g')
       = map file_name (files g)
           @ map (\<lambda>entry. d_name (fst entry)) (filter is_source_file (entry # entries))"
    using IH [THEN conjunct1] step(1) by simp
  have streams: "open_streams g' = streams_of (files g')"
    if "open_streams g = streams_of (files g)"
    using IH [THEN conjunct2, THEN conjunct1] step(2) [OF that] by simp
  have freed: "files_freed g' = files_freed g"
    using IH [THEN conjunct2, THEN conjunct2, THEN conjunct1] step(3) by simp
  have outputs: "\<forall>f \<in> set (files g').
            output_file_name (backup f) = name_and_number_part (file_name f) @ ''.dat''"
    if "\<forall>f \<in> set (files g).
            output_file_name (backup f) = name_and_number_part (file_name f) @ ''.dat''"
    using IH [THEN conjunct2, THEN conjunct2, THEN conjunct2] step(4) [OF that] by blast
  show ?case
    using names streams freed outputs by blast
qed

lemma open_source_files_loop_Inl:
  "open_source_files_loop alloc g entries = Some (Inl (return_value, g')) \<Longrightarrow>
     open_streams g = streams_of (files g) \<Longrightarrow>
     open_streams g' = streams_of (files g') \<and> return_value \<noteq> 0"
proof (induction entries arbitrary: g)
  case Nil
  then show ?case by simp
next
  case (Cons entry entries)
  show ?case
  proof (cases "open_source_file alloc g entry")
    case None
    then show ?thesis using Cons.prems by simp
  next
    case (Some outcome)
    show ?thesis
    proof (cases outcome)
      case (Inl failure)
      then have "open_source_file alloc g entry = Some (Inl (return_value, g'))"
        using Some Cons.prems(1) by simp
      from open_source_file_Inl [OF this Cons.prems(2)] show ?thesis by simp
    next
      case (Inr g1)
      then have one: "open_source_file alloc g entry = Some (Inr g1)" using Some by simp
      then have "open_source_files_loop alloc g1 entries = Some (Inl (return_value, g'))"
        using Cons.prems(1) by simp
      from Cons.IH [OF this open_source_file_step(2) [OF one Cons.prems(2)]]
      show ?thesis .
    qed
  qed
qed

subsection \<open>The whole of \<^verbatim>\<open>xorfs_open_source_files\<close>\<close>

lemma streams_of_map_forget_link: "streams_of (map forget_link fs) = streams_of fs"
  by (simp add: streams_of_def forget_link_def comp_def)

lemma same_but_links_streams:
  assumes "same_but_links g g'" and "open_streams g = streams_of (files g)"
  shows "open_streams g' = streams_of (files g')"
proof -
  have "streams_of (files g') = streams_of (map forget_link (files g'))"
    by (simp only: streams_of_map_forget_link)
  also have "\<dots> = streams_of (map forget_link (files g))"
    using assms(1) by (simp add: same_but_links_def)
  also have "\<dots> = streams_of (files g)"
    by (simp only: streams_of_map_forget_link)
  finally show ?thesis using assms by (simp add: same_but_links_def)
qed

lemma initial_globals_streams: "open_streams initial_globals = streams_of (files initial_globals)"
  by (simp add: initial_globals_def streams_of_def)

text \<open>A return value of 0 means that the loop went through and the link check succeeded.\<close>

lemma xorfs_open_source_files_success:
  assumes "xorfs_open_source_files alloc (Some entries) initial_globals = Some (0, g)"
  shows "\<exists>g1. open_source_files_loop alloc initial_globals entries = Some (Inr g1)
           \<and> check_backup_links g1 0 = Inr g"
proof (cases "open_source_files_loop alloc initial_globals entries")
  case None
  then show ?thesis using assms by (simp add: xorfs_open_source_files_def)
next
  case (Some outcome)
  show ?thesis
  proof (cases outcome)
    case (Inl failure)
    obtain return_value g1 where failure: "failure = (return_value, g1)" by (cases failure) auto
    have "return_value \<noteq> 0"
      using open_source_files_loop_Inl [OF _ initial_globals_streams] Some Inl failure by simp
    then show ?thesis
      using assms Some Inl failure by (simp add: xorfs_open_source_files_def)
  next
    case (Inr g1)
    show ?thesis
    proof (cases "check_backup_links g1 0")
      case (Inl failure)
      obtain return_value g2 where failure: "failure = (return_value, g2)" by (cases failure) auto
      have "return_value = 6" using check_backup_links_Inl(1) Inl failure by simp
      then show ?thesis
        using assms Some Inr Inl failure by (simp add: xorfs_open_source_files_def)
    next
      case links: (Inr g2)
      then show ?thesis
        using assms Some Inr by (simp add: xorfs_open_source_files_def)
    qed
  qed
qed

lemma same_but_links_file_names:
  assumes "same_but_links g g'"
  shows "map file_name (files g') = map file_name (files g)"
    and "length (files g') = length (files g)"
    and "i < length (files g) \<Longrightarrow>
           output_file_name (backup (files g' ! i)) = output_file_name (backup (files g ! i))"
    and "i < length (files g) \<Longrightarrow> file_name (files g' ! i) = file_name (files g ! i)"
proof -
  have maps: "map forget_link (files g') = map forget_link (files g)"
    using assms by (simp add: same_but_links_def)
  show len: "length (files g') = length (files g)"
    using map_forget_link_nth(1) [OF maps] .
  show out: "output_file_name (backup (files g' ! i)) = output_file_name (backup (files g ! i))"
    if "i < length (files g)"
    using forget_link_fields(6) [OF map_forget_link_nth(2) [OF maps that]] .
  show names: "file_name (files g' ! i) = file_name (files g ! i)" if "i < length (files g)" for i
    using forget_link_fields(1) [OF map_forget_link_nth(2) [OF maps that]] .
  show "map file_name (files g') = map file_name (files g)"
    using len names by (intro nth_equalityI) simp_all
qed

text \<open>
  Whatever makes \<^verbatim>\<open>xorfs_open_source_files\<close> fail once the directory is open, it leaves
  no stream open and the array freed.
\<close>

lemma xorfs_open_source_files_failure_releases:
  assumes "xorfs_open_source_files alloc (Some entries) initial_globals = Some (return_value, g)"
    and "return_value \<noteq> 0"
  shows "open_streams g = []" and "files_freed g"
proof -
  have "\<exists>g1. g = xorfs_close_source_files g1 \<and> open_streams g1 = streams_of (files g1)"
  proof (cases "open_source_files_loop alloc initial_globals entries")
    case None
    then show ?thesis using assms(1) by (simp add: xorfs_open_source_files_def)
  next
    case (Some outcome)
    show ?thesis
    proof (cases outcome)
      case (Inl failure)
      obtain rv g1 where failure: "failure = (rv, g1)" by (cases failure) auto
      have "open_streams g1 = streams_of (files g1)"
        using open_source_files_loop_Inl [OF _ initial_globals_streams] Some Inl failure by simp
      moreover have "g = xorfs_close_source_files g1"
        using assms(1) Some Inl failure by (simp add: xorfs_open_source_files_def)
      ultimately show ?thesis by blast
    next
      case (Inr g1)
      have loaded: "open_source_files_loop alloc initial_globals entries = Some (Inr g1)"
        using Some Inr by simp
      have streams: "open_streams g1 = streams_of (files g1)"
        using open_source_files_loop_Inr [OF loaded] initial_globals_streams by simp
      show ?thesis
      proof (cases "check_backup_links g1 0")
        case (Inl failure)
        obtain rv g2 where failure: "failure = (rv, g2)" by (cases failure) auto
        have links: "check_backup_links g1 0 = Inl (rv, g2)" using Inl failure by simp
        have "open_streams g2 = streams_of (files g2)"
          using same_but_links_streams [OF check_backup_links_Inl(2) [OF links] streams] .
        moreover have "g = xorfs_close_source_files g2"
          using assms(1) loaded links by (simp add: xorfs_open_source_files_def)
        ultimately show ?thesis by blast
      next
        case links: (Inr g2)
        then show ?thesis
          using assms loaded by (simp add: xorfs_open_source_files_def)
      qed
    qed
  qed
  then obtain g1 where "g = xorfs_close_source_files g1"
    and "open_streams g1 = streams_of (files g1)" by blast
  then show "open_streams g = []" and "files_freed g"
    using xorfs_close_source_files_closes_all(1,2) [of g1] by simp_all
qed



section \<open>The claims\<close>

text \<open>
  Claim C1. Let a plain image hold the bytes \<open>B\<close> of length \<open>L\<close>, and let an image that
  is xor-ed against it hold the bytes \<open>B XOR D\<close> for some \<open>D\<close> of the same length. Then
  reading the xor-ed image at offset 0 with length \<open>L\<close> returns \<open>L\<close> and exactly the bytes
  \<open>D\<close> (the lengths are those an \<^verbatim>\<open>int\<close> can return, both streams are open, and the
  second buffer can be allocated).
\<close>

theorem C1_two_level_reconstruction:
  assumes "base < length fs"
    and "xor_against_number (backup (fs ! base)) = 0"
    and "file_descriptor (fs ! base) = Some base_stream"
    and "content base_stream = B"
    and "delta < length fs"
    and "xor_against_number (backup (fs ! delta)) \<noteq> 0"
    and "xor_against_source_file (backup (fs ! delta)) = Some base"
    and "file_descriptor (fs ! delta) = Some delta_stream"
    and "content delta_stream = map2 (XOR) B D"
    and "length B = L" and "length D = L" and "int L \<le> INT_MAX"
    and "malloc depth = Some uninitialised"
    and "L \<le> length buffer"
  shows "\<exists>fs'. xorfs_read_backup malloc depth fs delta buffer 0 L
                 = Some (int L, D @ drop L buffer, fs')"
proof -
  let ?stored = "map2 (XOR) B D"
  have stored: "length ?stored = L" using assms(10,11) by simp
  define delta1 where "delta1 = (fs ! delta)\<lparr>file_descriptor := Some (delta_stream
    \<lparr>pos := nat 0 + length (take L (drop (nat 0) (content delta_stream)))\<rparr>)\<rparr>"
  have own: "xorfs_read_plain (fs ! delta) buffer 0 L
               = Some (int L, ?stored @ drop L buffer, delta1)"
    using xorfs_read_plain_Some [OF assms(8), of 0 buffer L] assms(9,12) stored
    by (simp add: delta1_def int_of_size_t_small)
  let ?fs1 = "fs[delta := delta1]"
  let ?second = "map uninitialised [0..<L]"
  have apart: "base \<noteq> delta" using assms(2,6) by auto
  then have base1: "?fs1 ! base = fs ! base" by simp
  define base1 where "base1 = (fs ! base)\<lparr>file_descriptor := Some (base_stream
    \<lparr>pos := nat 0 + length (take L (drop (nat 0) (content base_stream)))\<rparr>)\<rparr>"
  have "xorfs_read_plain (?fs1 ! base) ?second 0 (nat (int L)) = Some (int L, B, base1)"
    using xorfs_read_plain_Some [OF assms(3), of 0 ?second L] assms(4,10,12)
    by (simp add: base1 base1_def int_of_size_t_small)
  then have rec: "xorfs_read_backup malloc (Suc depth) ?fs1 base ?second 0 (nat (int L))
                    = Some (int L, B, ?fs1[base := base1])"
    using assms(1,2) by (intro xorfs_read_backup_plain_image) (simp_all add: base1)
  have "xorfs_read_backup malloc depth fs delta buffer 0 L
          = Some (int L, xor_position_wise L (?stored @ drop L buffer) B, ?fs1[base := base1])"
    using xorfs_read_backup_xored_image(5)
            [OF assms(5) own _ assms(6,7,13) rec assms(12,14)]
    by simp
  moreover have "xor_position_wise L (?stored @ drop L buffer) B = D @ drop L buffer"
    using stored assms(10,11) by (simp add: xor_position_wise_def xor_twice)
  ultimately show ?thesis by auto
qed

theorem C1_two_level_reconstruction_witness:
  "\<exists>fs'. xorfs_read_backup malloc_succeeds 0 two_level_files 1 [0, 0, 0] 0 3
           = Some (3, [5, 6, 7], fs')"
  using C1_two_level_reconstruction
          [where fs = two_level_files and base = 0 and delta = 1 and B = "[1, 2, 3]"
             and D = "[5, 6, 7]" and L = 3 and malloc = malloc_succeeds and depth = 0
             and buffer = "[0, 0, 0]"
             and base_stream = "\<lparr>fileno = 0, content = [1, 2, 3], pos = 0\<rparr>"
             and delta_stream = "\<lparr>fileno = 1, content = [4, 4, 4], pos = 0\<rparr>"]
  by (simp add: two_level_files_def loaded_source_file_def malloc_succeeds_def INT_MAX_def)

text \<open>
  Claim C2 says that the loader checks the resolved links for cycles and fails on a directory
  with a cycle. The program has no such check. A directory with the one file
  \<^verbatim>\<open>a-1x1.xor\<close>, backup 1 xor-ed against backup 1: the loader returns 0 and
  \<^verbatim>\<open>main\<close> goes on to serve the file system; the pointer of the entry is the entry
  itself, and a read of it does not return.
\<close>

theorem C2_self_reference_is_loaded_and_served:
  "main always_succeeds (Some self_reference_directory) = Some (Serving self_reference_globals)
   \<and> xor_against_source_file (backup (files self_reference_globals ! 0)) = Some 0
   \<and> xorfs_read_backup malloc_succeeds 0 (files self_reference_globals) 0 [0, 0, 0] 0 3 = None"
proof -
  have "main always_succeeds (Some self_reference_directory)
          = Some (Serving self_reference_globals)"
    by (simp add: main_def xorfs_open_source_files_def self_reference_directory_def
      self_reference_globals_def
      regular_file_def always_succeeds_def initial_globals_def loaded_source_file_def
      open_source_file_def get_backup_information_def ends_with_source_file_extension_def
      XORFS_SOURCE_FILE_EXTENSION_def strtol_def is_digit_def isspace_def deref_def
      decimal_value_def digit_value_def LONG_MAX_def LONG_MIN_def Let_def
      check_backup_links.simps set_xor_against_source_file_def
      get_source_file_by_backup_name_and_number_def
      source_file_by_backup_name_and_number_from.simps)
  moreover have "xor_against_source_file (backup (files self_reference_globals ! 0)) = Some 0"
    by (simp add: self_reference_globals_def loaded_source_file_def)
  moreover have "xorfs_read_backup malloc_succeeds 0 (files self_reference_globals) 0 [0, 0, 0] 0 3
                   = None"
    by (rule xorfs_read_backup_self_reference)
      (simp_all add: self_reference_globals_def loaded_source_file_def malloc_succeeds_def
        INT_MAX_def)
  ultimately show ?thesis by simp
qed

text \<open>
  Claim C2, amended. After all entries are loaded, the loader resolves the links and checks
  nothing else: if every xor-ed image names a backup number that some loaded entry of the same
  name has, \<^verbatim>\<open>xorfs_open_source_files\<close> returns 0, cycle or not; the entries are the
  loaded ones, and the pointer of every entry is the first entry with its name and the number it
  is xor-ed against (no pointer for a plain image).
\<close>

theorem C2_links_are_resolved_and_nothing_else_is_checked:
  assumes "open_source_files_loop alloc g0 entries = Some (Inr g1)"
    and "\<forall>i < length (files g1). \<not> unresolved (files g1) i"
  shows "\<exists>g2. xorfs_open_source_files alloc (Some entries) g0 = Some (0, g2)
           \<and> same_but_links g1 g2
           \<and> (\<forall>i < length (files g2).
                 xor_against_source_file (backup (files g2 ! i))
                   = resolved_link (files g2) (files g2 ! i))"
proof -
  from check_backup_links_succeeds [OF assms(2)] obtain g2
    where links: "check_backup_links g1 0 = Inr g2" by blast
  note linked = check_backup_links_Inr [OF links]
  have maps: "map forget_link (files g2) = map forget_link (files g1)"
    using linked(1) by (simp add: same_but_links_def)
  have "xor_against_source_file (backup (files g2 ! i)) = resolved_link (files g2) (files g2 ! i)"
    if "i < length (files g2)" for i
  proof -
    have i: "i < length (files g1)" using that map_forget_link_nth(1) [OF maps] by simp
    have "resolved_link (files g2) (files g2 ! i) = resolved_link (files g1) (files g1 ! i)"
      using resolved_link_cong [OF maps map_forget_link_nth(2) [OF maps i]] .
    then show ?thesis using linked(3) [OF i] by simp
  qed
  moreover have "xorfs_open_source_files alloc (Some entries) g0 = Some (0, g2)"
    using assms(1) links by (simp add: xorfs_open_source_files_def)
  ultimately show ?thesis using linked(1) by blast
qed

theorem C2_links_are_resolved_and_nothing_else_is_checked_witness:
  "\<exists>g2. xorfs_open_source_files always_succeeds (Some self_reference_directory) initial_globals
           = Some (0, g2)
         \<and> same_but_links
             \<lparr>files = [loaded_source_file ''a-1x1.xor'' 0 [1, 2, 3] ''a'' 1 1 None ''a-1.dat''],
              files_freed = False, open_streams = [0]\<rparr> g2
         \<and> (\<forall>i < length (files g2).
               xor_against_source_file (backup (files g2 ! i))
                 = resolved_link (files g2) (files g2 ! i))"
proof -
  have loaded: "open_source_files_loop always_succeeds initial_globals self_reference_directory
      = Some (Inr \<lparr>files =
          [loaded_source_file ''a-1x1.xor'' 0 [1, 2, 3] ''a'' 1 1 None ''a-1.dat''],
          files_freed = False, open_streams = [0]\<rparr>)"
    by (simp add: self_reference_directory_def regular_file_def always_succeeds_def
        initial_globals_def loaded_source_file_def open_source_file_def
        get_backup_information_def ends_with_source_file_extension_def
        XORFS_SOURCE_FILE_EXTENSION_def strtol_def is_digit_def isspace_def deref_def
        decimal_value_def digit_value_def LONG_MAX_def LONG_MIN_def Let_def)
  show ?thesis
    using C2_links_are_resolved_and_nothing_else_is_checked [OF loaded]
    by (simp add: unresolved_def loaded_source_file_def)
qed

text \<open>
  Claim C3 says that no two loaded entries have the same output file name. The program
  compares no output file names. A directory with \<^verbatim>\<open>a-1.xor\<close>,
  \<^verbatim>\<open>a-2.xor\<close> and \<^verbatim>\<open>a-1x2.xor\<close> is loaded with the return value 0, and the
  first and the third entry are both served as \<^verbatim>\<open>a-1.dat\<close>.
\<close>

theorem C3_two_entries_with_one_output_file_name:
  "xorfs_open_source_files always_succeeds (Some same_output_directory) initial_globals
     = Some (0, same_output_globals)
   \<and> output_file_name (backup (files same_output_globals ! 0)) = ''a-1.dat''
   \<and> output_file_name (backup (files same_output_globals ! 2)) = ''a-1.dat''
   \<and> file_name (files same_output_globals ! 0) = ''a-1.xor''
   \<and> file_name (files same_output_globals ! 2) = ''a-1x2.xor''"
  by (simp add: xorfs_open_source_files_def same_output_directory_def same_output_globals_def
      regular_file_def always_succeeds_def initial_globals_def loaded_source_file_def
      open_source_file_def get_backup_information_def ends_with_source_file_extension_def
      XORFS_SOURCE_FILE_EXTENSION_def strtol_def is_digit_def isspace_def deref_def
      decimal_value_def digit_value_def LONG_MAX_def LONG_MIN_def Let_def
      check_backup_links.simps set_xor_against_source_file_def
      get_source_file_by_backup_name_and_number_def
      source_file_by_backup_name_and_number_from.simps)

text \<open>
  Claim C3, amended. In every array that \<^verbatim>\<open>xorfs_open_source_files\<close> has loaded with
  the return value 0, the output file name of an entry is the front of its source file name,
  up to the end of the first run of digits, followed by \<^verbatim>\<open>.dat\<close>. So two entries
  have the same output file name exactly when their source file names have the same such
  front, as \<^verbatim>\<open><name>-<n>.xor\<close> and \<^verbatim>\<open><name>-<n>x<m>.xor\<close> do.
\<close>

theorem C3_output_file_name_is_the_front_of_the_file_name:
  assumes "xorfs_open_source_files alloc (Some entries) initial_globals = Some (0, g)"
    and "i < length (files g)" and "j < length (files g)"
  shows "output_file_name (backup (files g ! i))
           = name_and_number_part (file_name (files g ! i)) @ ''.dat''
         \<and> (output_file_name (backup (files g ! i)) = output_file_name (backup (files g ! j))
              \<longleftrightarrow> name_and_number_part (file_name (files g ! i))
                    = name_and_number_part (file_name (files g ! j)))"
proof -
  from xorfs_open_source_files_success [OF assms(1)] obtain g1
    where loaded: "open_source_files_loop alloc initial_globals entries = Some (Inr g1)"
      and links: "check_backup_links g1 0 = Inr g"
    by blast
  have "\<forall>f \<in> set (files g1).
          output_file_name (backup f) = name_and_number_part (file_name f) @ ''.dat''"
    using open_source_files_loop_Inr [OF loaded] by (simp add: initial_globals_def)
  then have g1: "output_file_name (backup (files g1 ! k))
                   = name_and_number_part (file_name (files g1 ! k)) @ ''.dat''"
    if "k < length (files g1)" for k
    using that by simp
  note same = same_but_links_file_names [OF check_backup_links_Inr(1) [OF links]]
  have out: "output_file_name (backup (files g ! k))
               = name_and_number_part (file_name (files g ! k)) @ ''.dat''"
    if "k < length (files g)" for k
    using that same(2) same(3) [of k] same(4) [of k] g1 [of k] by simp
  show ?thesis
    using out [OF assms(2)] out [OF assms(3)] by simp
qed

theorem C3_output_file_name_is_the_front_of_the_file_name_witness:
  "output_file_name (backup (files same_output_globals ! 0))
     = name_and_number_part ''a-1.xor'' @ ''.dat''
   \<and> name_and_number_part ''a-1.xor'' = name_and_number_part ''a-1x2.xor''"
proof -
  have built: "xorfs_open_source_files always_succeeds (Some same_output_directory) initial_globals
     = Some (0, same_output_globals)"
    by (simp add: xorfs_open_source_files_def same_output_directory_def same_output_globals_def
      regular_file_def always_succeeds_def initial_globals_def loaded_source_file_def
      open_source_file_def get_backup_information_def ends_with_source_file_extension_def
      XORFS_SOURCE_FILE_EXTENSION_def strtol_def is_digit_def isspace_def deref_def
      decimal_value_def digit_value_def LONG_MAX_def LONG_MIN_def Let_def
      check_backup_links.simps set_xor_against_source_file_def
      get_source_file_by_backup_name_and_number_def
      source_file_by_backup_name_and_number_from.simps)
  show ?thesis
    using C3_output_file_name_is_the_front_of_the_file_name [OF built, of 0 2]
    by (simp add: same_output_globals_def loaded_source_file_def)
qed




text \<open>
  Claim C5. Let all entries of a directory be loaded, and let some loaded image be xor-ed
  against a backup number (not 0) that no loaded entry of the same name has. Then
  \<^verbatim>\<open>xorfs_open_source_files\<close> fails, with the return value 6; after it no stream is open
  and the array of source files is freed; and \<^verbatim>\<open>main\<close> returns 1 without mounting
  the file system.
\<close>

theorem C5_broken_chain_fails_and_releases:
  assumes "open_source_files_loop alloc initial_globals entries = Some (Inr g1)"
    and "index < length (files g1)" and "unresolved (files g1) index"
  shows "\<exists>g'. xorfs_open_source_files alloc (Some entries) initial_globals = Some (6, g')
           \<and> open_streams g' = [] \<and> files_freed g'
           \<and> main alloc (Some entries) = Some (Returned 1 g')"
proof -
  from check_backup_links_fails [OF assms(2,3)] obtain g2
    where links: "check_backup_links g1 0 = Inl (6, g2)" and same: "same_but_links g1 g2"
    by blast
  have "open_streams g1 = streams_of (files g1)"
    using open_source_files_loop_Inr [OF assms(1)] initial_globals_streams by simp
  then have streams: "open_streams g2 = streams_of (files g2)"
    by (rule same_but_links_streams [OF same])
  let ?g' = "xorfs_close_source_files g2"
  have result: "xorfs_open_source_files alloc (Some entries) initial_globals = Some (6, ?g')"
    using assms(1) links by (simp add: xorfs_open_source_files_def)
  moreover have "main alloc (Some entries) = Some (Returned 1 ?g')"
    using result by (simp add: main_def)
  ultimately show ?thesis
    using xorfs_close_source_files_closes_all(1,2) [OF streams] by blast
qed

theorem C5_broken_chain_fails_and_releases_witness:
  "\<exists>g'. xorfs_open_source_files always_succeeds (Some broken_chain_directory) initial_globals
           = Some (6, g')
         \<and> open_streams g' = [] \<and> files_freed g'
         \<and> main always_succeeds (Some broken_chain_directory) = Some (Returned 1 g')"
proof -
  have loaded: "open_source_files_loop always_succeeds initial_globals broken_chain_directory
      = Some (Inr \<lparr>files =
          [loaded_source_file ''a-1.xor'' 0 [1, 2, 3] ''a'' 1 0 None ''a-1.dat'',
           loaded_source_file ''a-3x2.xor'' 1 [4, 4, 4] ''a'' 3 2 None ''a-3.dat''],
          files_freed = False, open_streams = [0, 1]\<rparr>)"
    by (simp add: broken_chain_directory_def regular_file_def always_succeeds_def
        initial_globals_def loaded_source_file_def open_source_file_def
        get_backup_information_def ends_with_source_file_extension_def
        XORFS_SOURCE_FILE_EXTENSION_def strtol_def is_digit_def isspace_def deref_def
        decimal_value_def digit_value_def LONG_MAX_def LONG_MIN_def Let_def)
  show ?thesis
    using C5_broken_chain_fails_and_releases [OF loaded, of 1]
    by (simp add: unresolved_def loaded_source_file_def All_less_Suc)
qed

text \<open>
  Claim C6. Take an xor-ed image with an open stream whose pointers lead to a plain image,
  an offset that is not negative, a size that an \<^verbatim>\<open>int\<close> can count, and allocations that
  succeed. The read of the image's own file obtains \<open>n\<close> bytes, the bytes of the file at the
  offset, at most the size and fewer at the end of the file, which is no error. The image it
  is xor-ed against is then read at the same offset with the length \<open>n\<close>, and that read comes
  back with what the read of the specification yields for that image: for a plain image the
  number of its bytes at the offset, at most \<open>n\<close>, and these bytes. Its count \<open>r\<close> is at most
  \<open>n\<close>. The read of the xor-ed image fails with \<open>-EIO\<close> exactly when \<open>r\<close> is below \<open>n\<close>;
  otherwise it returns \<open>n\<close>, and the first \<open>n\<close> bytes of its buffer are the xor, position by
  position, of the \<open>n\<close> own bytes and the \<open>n\<close> bytes of the other read. In both cases it
  returns what the read of the specification yields for the xor-ed image. The chain may have
  any length, and the image may stand at any depth of it.
\<close>

theorem C6_short_read_and_chain_mismatch:
  assumes "source_file < length fs"
    and "file_descriptor (fs ! source_file) = Some stream"
    and "xor_against_number (backup (fs ! source_file)) \<noteq> 0"
    and "xor_against_source_file (backup (fs ! source_file)) = Some xor_against"
    and "reaches_plain_image k fs xor_against"
    and "0 \<le> offset" and "int sz \<le> INT_MAX" and "sz \<le> length buffer"
    and "malloc depth = Some uninitialised" and "\<forall>d. malloc d \<noteq> None"
  shows
    "(let own = take sz (drop (nat offset) (content stream));
          n = length own;
          buffer1 = own @ drop n buffer;
          source_file1 = (fs ! source_file)
            \<lparr>file_descriptor := Some (stream\<lparr>pos := nat offset + n\<rparr>)\<rparr>
      in xorfs_read_plain (fs ! source_file) buffer offset sz
           = Some (int n, buffer1, source_file1)
         \<and> (case xorfs_read_backup malloc (Suc depth) (fs[source_file := source_file1])
                    xor_against (map uninitialised [0..<sz]) offset n of
               None \<Rightarrow> False
             | Some (r, second_buffer, fs2) \<Rightarrow>
                 returns_as_specified (Some (r, second_buffer, fs2))
                   (specified_read k fs xor_against (nat offset) n)
                 \<and> r \<le> int n
                 \<and> xorfs_read_backup malloc depth fs source_file buffer offset sz =
                      (if r < int n then Some (- EIO, buffer1, fs2)
                       else Some (int n, xor_position_wise sz buffer1 second_buffer, fs2))
                 \<and> take n (xor_position_wise sz buffer1 second_buffer)
                      = map2 (XOR) own (take n second_buffer))
         \<and> returns_as_specified
              (xorfs_read_backup malloc depth fs source_file buffer offset sz)
              (specified_read (Suc k) fs source_file (nat offset) sz))"
proof -
  define own where "own = take sz (drop (nat offset) (content stream))"
  define source_file1 where "source_file1 = (fs ! source_file)
            \<lparr>file_descriptor := Some (stream\<lparr>pos := nat offset + length own\<rparr>)\<rparr>"
  let ?n = "length own"
  let ?buffer1 = "own @ drop ?n buffer"
  let ?fs1 = "fs[source_file := source_file1]"
  let ?second = "map uninitialised [0..<sz]"
  let ?rec = "xorfs_read_backup malloc (Suc depth) ?fs1 xor_against ?second offset ?n"
  let ?read = "xorfs_read_backup malloc depth fs source_file buffer offset sz"
  have le: "?n \<le> sz" by (simp add: own_def)
  then have small: "int ?n \<le> INT_MAX" using assms(7) by linarith
  have read_own: "xorfs_read_plain (fs ! source_file) buffer offset sz
                    = Some (int ?n, ?buffer1, source_file1)"
    using xorfs_read_plain_Some [OF assms(2,6), of buffer sz]
    unfolding own_def [symmetric] source_file1_def
    by (simp only: int_of_size_t_small [OF small])
  have reach1: "reaches_plain_image k ?fs1 xor_against"
    using assms(5,1) by (intro reaches_plain_image_update) (simp_all add: source_file1_def)
  have "specified_read k ?fs1 xor_against (nat offset) ?n
          = specified_read k fs xor_against (nat offset) ?n"
    using assms(1,2) by (simp add: specified_read_update stored_bytes_def source_file1_def)
  moreover have "returns_as_specified ?rec (specified_read k ?fs1 xor_against (nat offset) ?n)"
    using reach1 assms(6) small _ assms(10)
    by (rule xorfs_read_backup_specified) (simp add: le)
  ultimately have spec: "returns_as_specified ?rec
                           (specified_read k fs xor_against (nat offset) ?n)"
    by simp
  then obtain r second_buffer fs2 where rec: "?rec = Some (r, second_buffer, fs2)"
    by (auto simp: returns_as_specified_def split: option.splits)
  have rec': "xorfs_read_backup malloc (Suc depth) ?fs1 xor_against ?second offset
                (nat (int ?n)) = Some (r, second_buffer, fs2)"
    using rec by simp
  note facts = xorfs_read_backup_xored_image
                 [OF assms(1) read_own _ assms(3,4,9) rec' assms(7,8)]
  have negative: "r = - EIO" if "r < 0"
  proof (cases "specified_read k fs xor_against (nat offset) ?n")
    case (Inl failure)
    then have "failure = - EIO" by (rule specified_read_failure)
    then show ?thesis using spec rec Inl by (simp add: returns_as_specified_def)
  next
    case (Inr data)
    then show ?thesis using spec rec that by (simp add: returns_as_specified_def)
  qed
  have result: "?read = (if r < int ?n then Some (- EIO, ?buffer1, fs2)
                         else Some (int ?n, xor_position_wise sz ?buffer1 second_buffer, fs2))"
    using facts(5) negative by auto
  have "take ?n (xor_position_wise sz ?buffer1 second_buffer)
          = map2 (XOR) (take ?n ?buffer1) (take ?n second_buffer)"
    using le facts(3,4) assms(8) by (intro take_xor_position_wise) simp_all
  then have xored: "take ?n (xor_position_wise sz ?buffer1 second_buffer)
                      = map2 (XOR) own (take ?n second_buffer)"
    by simp
  have "reaches_plain_image (Suc k) fs source_file"
    using assms(1-5) by simp
  then have top: "returns_as_specified ?read
                    (specified_read (Suc k) fs source_file (nat offset) sz)"
    using assms(6,7,8,10) by (rule xorfs_read_backup_specified)
  have inner: "case ?rec of
               None \<Rightarrow> False
             | Some (r, second_buffer, fs2) \<Rightarrow>
                 returns_as_specified (Some (r, second_buffer, fs2))
                   (specified_read k fs xor_against (nat offset) ?n)
                 \<and> r \<le> int ?n
                 \<and> ?read =
                      (if r < int ?n then Some (- EIO, ?buffer1, fs2)
                       else Some (int ?n, xor_position_wise sz ?buffer1 second_buffer, fs2))
                 \<and> take ?n (xor_position_wise sz ?buffer1 second_buffer)
                      = map2 (XOR) own (take ?n second_buffer)"
    unfolding rec using spec [unfolded rec] facts(1) result xored by simp
  show ?thesis
    unfolding Let_def own_def [symmetric] source_file1_def [symmetric]
    using read_own inner top by (intro conjI)
qed

theorem C6_short_read_and_chain_mismatch_witness:
  "xorfs_read_backup malloc_succeeds 0 two_level_files 1 [0, 0, 0, 0] 0 4 =
     Some (3, [5, 6, 7, 170],
       [(two_level_files ! 0)\<lparr>file_descriptor := Some \<lparr>fileno = 0, content = [1, 2, 3], pos = 3\<rparr>\<rparr>,
        (two_level_files ! 1)\<lparr>file_descriptor := Some \<lparr>fileno = 1, content = [4, 4, 4], pos = 3\<rparr>\<rparr>])
   \<and> xorfs_read_backup malloc_succeeds 0 short_base_files 1 [0, 0, 0, 0] 0 4 =
     Some (- EIO, [4, 4, 4, 0],
       [(short_base_files ! 0)\<lparr>file_descriptor := Some \<lparr>fileno = 0, content = [1, 2], pos = 2\<rparr>\<rparr>,
        (short_base_files ! 1)\<lparr>file_descriptor := Some \<lparr>fileno = 1, content = [4, 4, 4], pos = 3\<rparr>\<rparr>])"
proof -
  let ?stream = "\<lparr>fileno = 1, content = [4, 4, 4 :: byte], pos = 0\<rparr>"
  have upt4: "[0..<4] = [0, 1, 2, 3]"
    by code_simp
  have own: "take 4 (drop (nat 0) (content ?stream)) = [4, 4, 4]"
    and count: "length [4, 4, 4 :: byte] = 3"
    and position: "?stream\<lparr>pos := nat 0 + 3\<rparr> = \<lparr>fileno = 1, content = [4, 4, 4], pos = 3\<rparr>"
    and buffer1: "[4, 4, 4] @ drop 3 [0, 0, 0, 0 :: byte] = [4, 4, 4, 0]"
    by simp_all
  have xored: "xor_position_wise 4 [4, 4, 4, 0] [1, 2, 3, 170] = [5, 6, 7, 170]"
    by (simp add: xor_position_wise_def)
  have first: "xorfs_read_backup malloc_succeeds 0 two_level_files 1 [0, 0, 0, 0] 0 4 =
     Some (3, [5, 6, 7, 170],
       [(two_level_files ! 0)\<lparr>file_descriptor := Some \<lparr>fileno = 0, content = [1, 2, 3], pos = 3\<rparr>\<rparr>,
        (two_level_files ! 1)\<lparr>file_descriptor := Some \<lparr>fileno = 1, content = [4, 4, 4], pos = 3\<rparr>\<rparr>])"
  proof -
    let ?delta1 = "(two_level_files ! 1)
          \<lparr>file_descriptor := Some \<lparr>fileno = 1, content = [4, 4, 4], pos = 3\<rparr>\<rparr>"
    let ?base1 = "(two_level_files ! 0)
          \<lparr>file_descriptor := Some \<lparr>fileno = 0, content = [1, 2, 3], pos = 3\<rparr>\<rparr>"
    have rec: "xorfs_read_backup malloc_succeeds (Suc 0) (two_level_files[1 := ?delta1]) 0
                 (map (\<lambda>i. 170) [0..<4]) 0 3 = Some (3, [1, 2, 3, 170], [?base1, ?delta1])"
      by (subst xorfs_read_backup.simps)
        (simp add: two_level_files_def loaded_source_file_def xorfs_read_plain_def fseek_def
          fread_def int_of_size_t_def Let_def upt4)
    have entry: "1 < length two_level_files"
      "file_descriptor (two_level_files ! 1) = Some ?stream"
      "xor_against_number (backup (two_level_files ! 1)) \<noteq> 0"
      "xor_against_source_file (backup (two_level_files ! 1)) = Some 0"
      "reaches_plain_image 0 two_level_files 0"
      "(0::int) \<le> 0" "int 4 \<le> INT_MAX" "4 \<le> length [0, 0, 0, 0 :: byte]"
      "malloc_succeeds 0 = Some (\<lambda>i. 170)" "\<forall>d. malloc_succeeds d \<noteq> None"
      by (simp_all add: two_level_files_def loaded_source_file_def malloc_succeeds_def
          INT_MAX_def)
    note at_example = C6_short_read_and_chain_mismatch
        [OF entry, unfolded Let_def own count position buffer1]
    note step = at_example [THEN conjunct2, THEN conjunct1, unfolded rec option.case prod.case]
    from step [THEN conjunct2, THEN conjunct2, THEN conjunct1]
    show ?thesis by (simp add: xored)
  qed
  have second: "xorfs_read_backup malloc_succeeds 0 short_base_files 1 [0, 0, 0, 0] 0 4 =
     Some (- EIO, [4, 4, 4, 0],
       [(short_base_files ! 0)\<lparr>file_descriptor := Some \<lparr>fileno = 0, content = [1, 2], pos = 2\<rparr>\<rparr>,
        (short_base_files ! 1)\<lparr>file_descriptor := Some \<lparr>fileno = 1, content = [4, 4, 4], pos = 3\<rparr>\<rparr>])"
  proof -
    let ?delta1 = "(short_base_files ! 1)
          \<lparr>file_descriptor := Some \<lparr>fileno = 1, content = [4, 4, 4], pos = 3\<rparr>\<rparr>"
    let ?base1 = "(short_base_files ! 0)
          \<lparr>file_descriptor := Some \<lparr>fileno = 0, content = [1, 2], pos = 2\<rparr>\<rparr>"
    have rec: "xorfs_read_backup malloc_succeeds (Suc 0) (short_base_files[1 := ?delta1]) 0
                 (map (\<lambda>i. 170) [0..<4]) 0 3 = Some (2, [1, 2, 170, 170], [?base1, ?delta1])"
      by (subst xorfs_read_backup.simps)
        (simp add: short_base_files_def loaded_source_file_def xorfs_read_plain_def fseek_def
          fread_def int_of_size_t_def Let_def upt4)
    have entry: "1 < length short_base_files"
      "file_descriptor (short_base_files ! 1) = Some ?stream"
      "xor_against_number (backup (short_base_files ! 1)) \<noteq> 0"
      "xor_against_source_file (backup (short_base_files ! 1)) = Some 0"
      "reaches_plain_image 0 short_base_files 0"
      "(0::int) \<le> 0" "int 4 \<le> INT_MAX" "4 \<le> length [0, 0, 0, 0 :: byte]"
      "malloc_succeeds 0 = Some (\<lambda>i. 170)" "\<forall>d. malloc_succeeds d \<noteq> None"
      by (simp_all add: short_base_files_def loaded_source_file_def malloc_succeeds_def
          INT_MAX_def)
    note at_example = C6_short_read_and_chain_mismatch
        [OF entry, unfolded Let_def own count position buffer1]
    note step = at_example [THEN conjunct2, THEN conjunct1, unfolded rec option.case prod.case]
    from step [THEN conjunct2, THEN conjunct2, THEN conjunct1]
    show ?thesis by simp
  qed
  from first second show ?thesis by (rule conjI)
qed

text \<open>
  Claim C7. A file name with an \<open>x\<close> behind the backup number and no number behind the
  \<open>x\<close> is to be rejected, and the loader has the check for it: it reports that it cannot
  read the second number when \<^verbatim>\<open>errno\<close> is set after \<^verbatim>\<open>strtol\<close>. But
  \<^verbatim>\<open>strtol\<close> does not set \<^verbatim>\<open>errno\<close> when it finds no digits; it returns 0. For
  the name \<^verbatim>\<open>a-1x.xor\<close> the parser yields a plain image (xor-ed against 0) with the
  output file name \<^verbatim>\<open>a-1.dat\<close>, the loader returns 0 and the file system is served.
  (A name such as \<^verbatim>\<open>a-1xy.xor\<close> is rejected, with the return value 5, by the later
  check for the dot.)
\<close>

theorem C7_missing_number_is_taken_for_a_plain_image:
  "get_backup_information always_succeeds 0 ''a-1x.xor'' 0
     = Some (Inr \<lparr>name = ''a'', number = 1, xor_against_number = 0,
                  xor_against_source_file = None, time = 0, output_file_name = ''a-1.dat''\<rparr>)
   \<and> main always_succeeds (Some missing_number_directory) = Some (Serving missing_number_globals)
   \<and> get_backup_information always_succeeds 0 ''a-1xy.xor'' 0 = Some (Inl 5)"
  by (simp add: main_def xorfs_open_source_files_def missing_number_directory_def
      missing_number_globals_def
      regular_file_def always_succeeds_def initial_globals_def loaded_source_file_def
      open_source_file_def get_backup_information_def ends_with_source_file_extension_def
      XORFS_SOURCE_FILE_EXTENSION_def strtol_def is_digit_def isspace_def deref_def
      decimal_value_def digit_value_def LONG_MAX_def LONG_MIN_def Let_def
      check_backup_links.simps set_xor_against_source_file_def
      get_source_file_by_backup_name_and_number_def
      source_file_by_backup_name_and_number_from.simps)

text \<open>
  Claim C8. For every pair of buffers and every length that an \<^verbatim>\<open>int\<close> can count,
  the xor step of a read yields the first buffer with its first \<open>sz\<close> bytes xor-ed position
  by position with the second buffer's, whichever loop runs; and where the chunked loop is
  taken (\<open>sz\<close> divisible by the size of \<^verbatim>\<open>uintmax_t\<close>), it yields exactly what the
  byte-by-byte loop yields on the same buffers.
\<close>

theorem C8_chunking_never_changes_the_result:
  assumes "int sz \<le> INT_MAX" and "sz \<le> length first_buffer" and "sz \<le> length second_buffer"
  shows "xor_buffers sz first_buffer second_buffer
           = Some (xor_position_wise sz first_buffer second_buffer)
         \<and> (sz mod 8 = 0 \<longrightarrow>
              Some (xor_uintmax_chunks 0 (int_of_size_t (sz div 8)) first_buffer second_buffer)
                = xor_byte_by_byte 0 sz first_buffer second_buffer)"
proof
  show "xor_buffers sz first_buffer second_buffer
          = Some (xor_position_wise sz first_buffer second_buffer)"
    using assms by (rule xor_buffers_position_wise)
  show "sz mod 8 = 0 \<longrightarrow>
          Some (xor_uintmax_chunks 0 (int_of_size_t (sz div 8)) first_buffer second_buffer)
            = xor_byte_by_byte 0 sz first_buffer second_buffer"
    using assms
    by (simp add: xor_uintmax_chunks_position_wise xor_byte_by_byte_position_wise)
qed

theorem C8_chunking_never_changes_the_result_witness:
  "xor_buffers 8 [1, 2, 3, 4, 5, 6, 7, 8, 9] [1, 1, 1, 1, 1, 1, 1, 1, 1]
     = Some [0, 3, 2, 5, 4, 7, 6, 9, 9]
   \<and> Some (xor_uintmax_chunks 0 (int_of_size_t (8 div 8))
             [1, 2, 3, 4, 5, 6, 7, 8, 9] [1, 1, 1, 1, 1, 1, 1, 1, 1])
       = xor_byte_by_byte 0 8 [1, 2, 3, 4, 5, 6, 7, 8, 9] [1, 1, 1, 1, 1, 1, 1, 1, 1]"
  using C8_chunking_never_changes_the_result
          [of 8 "[1, 2, 3, 4, 5, 6, 7, 8, 9]" "[1, 1, 1, 1, 1, 1, 1, 1, 1]"]
  by (simp add: INT_MAX_def xor_position_wise_def)

text \<open>
  Claim C9 says that every read of a stream is positioned, so that two requests on one entry
  never interfere. In the program a read is \<^verbatim>\<open>fseek\<close> followed by \<^verbatim>\<open>fread\<close> on
  the position that the stream's readers share. Two readers of one stream, asked for the
  bytes at offsets 0 and 2: when the second reader's \<^verbatim>\<open>fseek\<close> falls between the two
  calls of the first, the first reader returns the bytes at offset 2; left alone it returns
  the bytes at offset 0.
\<close>

theorem C9_interleaved_reads_interfere:
  "reader_result (fst (snd (run_schedule [True, False, True, False] shared_stream
       (new_reader 0 2) (new_reader 2 2)))) = Some (2, [3, 4])
   \<and> reader_result (fst (snd (run_schedule [True, True, False, False] shared_stream
       (new_reader 0 2) (new_reader 2 2)))) = Some (2, [1, 2])"
  by (simp add: shared_stream_def new_reader_def reader_step_def fseek_def fread_def
      int_of_size_t_def Let_def)

text \<open>
  Claim C9, amended. A read of a stream is a seek to the offset followed by a read at the
  stream's position. A read whose two calls run without a call of another reader in between
  returns the count and the bytes found at its offset, whatever position the stream was left
  at before: \<^verbatim>\<open>xorfs_read_plain\<close> does so, and so does a reader that is scheduled
  twice in a row.
\<close>

theorem C9_uninterrupted_read_is_positioned:
  assumes "file_descriptor source_file = Some stream" and "0 \<le> offset"
  shows "(\<exists>source_file'.
            xorfs_read_plain (source_file\<lparr>file_descriptor := Some (stream\<lparr>pos := p\<rparr>)\<rparr>)
              buffer offset sz
            = Some (int_of_size_t (length (take sz (drop (nat offset) (content stream)))),
                    take sz (drop (nat offset) (content stream))
                      @ drop (length (take sz (drop (nat offset) (content stream)))) buffer,
                    source_file'))
       \<and> reader_result (fst (snd (run_schedule [True, True] (stream\<lparr>pos := p\<rparr>)
            (new_reader offset sz) other)))
         = Some (int_of_size_t (length (take sz (drop (nat offset) (content stream)))),
                 take sz (drop (nat offset) (content stream)))"
  using assms
  by (simp add: xorfs_read_plain_def new_reader_def reader_step_def fseek_def fread_def Let_def)

theorem C9_uninterrupted_read_is_positioned_witness:
  "(\<exists>source_file'.
      xorfs_read_plain ((two_level_files ! 0)
          \<lparr>file_descriptor := Some (\<lparr>fileno = 0, content = [1, 2, 3], pos = 0\<rparr>\<lparr>pos := 7\<rparr>)\<rparr>)
        [0, 0] 1 2
      = Some (2, [2, 3], source_file'))
   \<and> reader_result (fst (snd (run_schedule [True, True]
        (\<lparr>fileno = 0, content = [1, 2, 3], pos = 0\<rparr>\<lparr>pos := 7\<rparr>)
        (new_reader 1 2) (new_reader 0 1))))
     = Some (2, [2, 3])"
  using C9_uninterrupted_read_is_positioned
          [where source_file = "two_level_files ! 0"
             and stream = "\<lparr>fileno = 0, content = [1, 2, 3], pos = 0\<rparr>"
             and offset = 1 and sz = 2 and p = 7 and buffer = "[0, 0]"
             and other = "new_reader 0 1"]
  by (simp add: two_level_files_def loaded_source_file_def int_of_size_t_def)

text \<open>
  Claim C10. In every array of source files, colliding keys or not, both lookups return the
  matching entry with the lowest index when there is one, and nothing when there is none:
  the lookup by output file name (\<^verbatim>\<open>xorfs_get_source_file_by_file_name\<close>) and the
  lookup by backup name and number that resolves the links
  (\<^verbatim>\<open>get_source_file_by_backup_name_and_number\<close>).
\<close>

theorem C10_lookups_return_the_first_match:
  "(xorfs_get_source_file_by_file_name fs requested_name = Some i \<longleftrightarrow>
      i < length fs \<and> output_file_name (backup (fs ! i)) = requested_name
      \<and> (\<forall>j < i. output_file_name (backup (fs ! j)) \<noteq> requested_name))
   \<and> (xorfs_get_source_file_by_file_name fs requested_name = None \<longleftrightarrow>
      (\<forall>j < length fs. output_file_name (backup (fs ! j)) \<noteq> requested_name))
   \<and> (get_source_file_by_backup_name_and_number fs requested_name requested_number = Some i \<longleftrightarrow>
      i < length fs
      \<and> (number (backup (fs ! i)) = requested_number \<and> name (backup (fs ! i)) = requested_name)
      \<and> (\<forall>j < i. \<not> (number (backup (fs ! j)) = requested_number
                      \<and> name (backup (fs ! j)) = requested_name)))
   \<and> (get_source_file_by_backup_name_and_number fs requested_name requested_number = None \<longleftrightarrow>
      (\<forall>j < length fs. \<not> (number (backup (fs ! j)) = requested_number
                             \<and> name (backup (fs ! j)) = requested_name)))"
  by (simp add: xorfs_get_source_file_by_file_name_def
      get_source_file_by_backup_name_and_number_def
      source_file_by_file_name_from_Some source_file_by_file_name_from_None
      source_file_by_backup_name_and_number_from_Some
      source_file_by_backup_name_and_number_from_None)

theorem C10_lookups_return_the_first_match_witness:
  "xorfs_get_source_file_by_file_name colliding_files ''a-1.dat'' = Some 0
   \<and> xorfs_get_source_file_by_file_name colliding_files ''a-3.dat'' = None
   \<and> get_source_file_by_backup_name_and_number colliding_files ''a'' 1 = Some 0
   \<and> get_source_file_by_backup_name_and_number colliding_files ''a'' 3 = None"
proof -
  have "xorfs_get_source_file_by_file_name colliding_files ''a-1.dat'' = Some 0"
    using C10_lookups_return_the_first_match
            [where fs = colliding_files and requested_name = "''a-1.dat''" and i = 0,
             THEN conjunct1]
    by (simp add: colliding_files_def loaded_source_file_def)
  moreover have "xorfs_get_source_file_by_file_name colliding_files ''a-3.dat'' = None"
    using C10_lookups_return_the_first_match
            [where fs = colliding_files and requested_name = "''a-3.dat''",
             THEN conjunct2, THEN conjunct1]
    by (simp add: colliding_files_def loaded_source_file_def eval_nat_numeral All_less_Suc)
  moreover have "get_source_file_by_backup_name_and_number colliding_files ''a'' 1 = Some 0"
    using C10_lookups_return_the_first_match
            [where fs = colliding_files and requested_name = "''a''" and requested_number = 1
               and i = 0, THEN conjunct2, THEN conjunct2, THEN conjunct1]
    by (simp add: colliding_files_def loaded_source_file_def)
  moreover have "get_source_file_by_backup_name_and_number colliding_files ''a'' 3 = None"
    using C10_lookups_return_the_first_match
            [where fs = colliding_files and requested_name = "''a''" and requested_number = 3,
             THEN conjunct2, THEN conjunct2, THEN conjunct2]
    by (simp add: colliding_files_def loaded_source_file_def eval_nat_numeral All_less_Suc)
  ultimately show ?thesis by simp
qed

end
